theory Spec2Isabelle
  imports Main "HOL-Library.Monad_Syntax" "HOL-Library.Signed_Division"
begin

unbundle bit_operations_syntax

section \<open>The half-precision tiled GEMM kernels of \<^verbatim>\<open>src/kernel/wmma.cu\<close>\<close>

text \<open>
  The file holds two device kernels, \<^verbatim>\<open>hgemm_m16n16k16mma2x4_wp4x2\<close> (synchronous
  staging) and \<^verbatim>\<open>hgemm_m16n16k16mma2x4_wp4x2_async\<close> (double-buffered
  \<^verbatim>\<open>cp.async\<close> staging), and one host wrapper for each.

  What is modelled, and how:
  \<^item> C \<^verbatim>\<open>int\<close> values are HOL integers; \<^verbatim>\<open>+\<close> and \<^verbatim>\<open>*\<close> on them are checked
    (\<open>add_int\<close>, \<open>mul_int\<close>): a result outside the 32-bit range is undefined behaviour in
    C++ and is the value \<open>None\<close>. \<^verbatim>\<open>/\<close> and \<^verbatim>\<open>%\<close> truncate towards zero
    (\<open>sdiv\<close>, \<open>smod\<close>).
  \<^item> Global buffers are lists; a read or write outside a buffer is \<open>None\<close>.
  \<^item> Shared arrays are flat element-indexed memories with the row stride of their
    declaration (\<open>BK + PAD\<close>, \<open>BN + PAD\<close>); their initial contents are arbitrary.
  \<^item> A \<^verbatim>\<open>half\<close> is a value of an arbitrary type \<open>'a\<close>; the tensor-core primitive
    \<^verbatim>\<open>wmma::mma_sync\<close> is a parameter of the model.
  \<^item> A kernel has no data-dependent control flow: every thread of a block issues the same
    instruction sequence, which depends on \<open>K\<close> only. The sequence is the list
    \<open>sync_ops K\<close> (respectively \<open>async_ops K\<close>); \<open>exec\<close> gives each instruction its
    effect on the state of one block, running the block's threads (or warps) one after
    the other in an order the hardware chooses.
\<close>

subsection \<open>C integer arithmetic\<close>

definition INT_MAX :: int where
  "INT_MAX = 2147483647"

definition INT_MIN :: int where
  "INT_MIN = - 2147483648"

definition int_ok :: "int \<Rightarrow> int option" where
  "int_ok x = (if INT_MIN \<le> x \<and> x \<le> INT_MAX then Some x else None)"

definition add_int :: "int \<Rightarrow> int \<Rightarrow> int option" where
  "add_int a b = int_ok (a + b)"

definition mul_int :: "int \<Rightarrow> int \<Rightarrow> int option" where
  "mul_int a b = int_ok (a * b)"

text \<open>Conversion of an \<^verbatim>\<open>int\<close> to \<^verbatim>\<open>unsigned\<close> (the \<^verbatim>\<open>ldm\<close> argument of the fragment
  primitives, the components of \<^verbatim>\<open>dim3\<close>), and of an \<^verbatim>\<open>int64_t\<close> to \<^verbatim>\<open>int\<close>
  (\<^verbatim>\<open>const int M = a.size(0)\<close>).\<close>

definition to_unsigned :: "int \<Rightarrow> int" where
  "to_unsigned x = x mod 4294967296"


subsection \<open>Tile constants (the template arguments the host wrappers pass)\<close>

definition WARP_SIZE :: int where "WARP_SIZE = 32"
definition WMMA_SIZE_M :: int where "WMMA_SIZE_M = 16"
definition WMMA_SIZE_N :: int where "WMMA_SIZE_N = 16"
definition WMMA_SIZE_K :: int where "WMMA_SIZE_K = 16"
definition WARPS_PER_BLOCK_M :: int where "WARPS_PER_BLOCK_M = 4"
definition WARPS_PER_BLOCK_N :: int where "WARPS_PER_BLOCK_N = 2"
definition WMMA_PER_WARP_M :: int where "WMMA_PER_WARP_M = 2"
definition WMMA_PER_WARP_N :: int where "WMMA_PER_WARP_N = 4"

definition BM :: int where
  "BM = WMMA_SIZE_M * WMMA_PER_WARP_M * WARPS_PER_BLOCK_M"

definition BN :: int where
  "BN = WMMA_SIZE_N * WMMA_PER_WARP_N * WARPS_PER_BLOCK_N"

definition BK :: int where
  "BK = WMMA_SIZE_K"

definition NUM_THREADS :: nat where
  "NUM_THREADS = nat (WARPS_PER_BLOCK_M * WARPS_PER_BLOCK_N * WARP_SIZE)"

subsection \<open>Thread and warp indices (lines 56--69 and 175--188)\<close>

definition tid :: "nat \<Rightarrow> nat \<Rightarrow> nat \<Rightarrow> int" where
  "tid blockDim_x threadIdx_y threadIdx_x = int (threadIdx_y * blockDim_x + threadIdx_x)"

text \<open>The wrappers launch \<^verbatim>\<open>dim3 block(NUM_THREADS)\<close>: one row of 256 threads.\<close>

definition block_tids :: "int list" where
  "block_tids = map (tid NUM_THREADS 0) [0..<NUM_THREADS]"

definition warp_id :: "int \<Rightarrow> int" where
  "warp_id t = t sdiv WARP_SIZE"

definition warp_m :: "int \<Rightarrow> int" where
  "warp_m w = w sdiv 2"

definition warp_n :: "int \<Rightarrow> int" where
  "warp_n w = w smod 2"

definition load_s_A_m :: "int \<Rightarrow> int" where
  "load_s_A_m t = t sdiv 2"

definition load_s_A_k :: "int \<Rightarrow> int" where
  "load_s_A_k t = (if t smod 2 = 0 then 0 else 8)"

definition load_s_B_k :: "int \<Rightarrow> int" where
  "load_s_B_k t = t sdiv 16"

definition load_s_B_n :: "int \<Rightarrow> int" where
  "load_s_B_n t = (t smod 16) * 8"

text \<open>The 8-half (128-bit) segment of the staged slice of A, respectively of B, that a
  thread transfers in a reduction step, as (row, column) coordinates of the slice.\<close>

definition seg_A :: "int \<Rightarrow> (int \<times> int) list" where
  "seg_A t = map (\<lambda>e. (load_s_A_m t, load_s_A_k t + int e)) [0..<8]"

definition seg_B :: "int \<Rightarrow> (int \<times> int) list" where
  "seg_B t = map (\<lambda>e. (load_s_B_k t, load_s_B_n t + int e)) [0..<8]"

subsection \<open>Kernel arguments and global-memory offsets\<close>

record 'a kargs =
  arg_A :: "'a list"
  arg_B :: "'a list"
  arg_M :: int
  arg_N :: int
  arg_K :: int

definition load_g_A_m :: "int \<Rightarrow> int \<Rightarrow> int option" where
  "load_g_A_m b_y t = do { p \<leftarrow> mul_int b_y BM; add_int p (load_s_A_m t) }"

definition load_g_B_n :: "int \<Rightarrow> int \<Rightarrow> int option" where
  "load_g_B_n b_x t = do { p \<leftarrow> mul_int b_x BN; add_int p (load_s_B_n t) }"

definition load_g_A_off :: "'a kargs \<Rightarrow> int \<Rightarrow> int \<Rightarrow> int \<Rightarrow> int option" where
  "load_g_A_off a b_y idx_k t = do {
     g_m \<leftarrow> load_g_A_m b_y t;
     p \<leftarrow> mul_int idx_k WMMA_SIZE_K;
     g_k \<leftarrow> add_int p (load_s_A_k t);
     q \<leftarrow> mul_int g_m (arg_K a);
     add_int q g_k }"

definition load_g_B_off :: "'a kargs \<Rightarrow> int \<Rightarrow> int \<Rightarrow> int \<Rightarrow> int option" where
  "load_g_B_off a b_x idx_k t = do {
     g_n \<leftarrow> load_g_B_n b_x t;
     p \<leftarrow> mul_int idx_k WMMA_SIZE_K;
     g_k \<leftarrow> add_int p (load_s_B_k t);
     q \<leftarrow> mul_int g_k (arg_N a);
     add_int q g_n }"

text \<open>\<^verbatim>\<open>LDST128BITS(A[off])\<close> as a read: the 8 halves at \<open>off\<close>.\<close>

definition ld128 :: "'a list \<Rightarrow> int \<Rightarrow> 'a list option" where
  "ld128 g off =
     (if 0 \<le> off \<and> off + 8 \<le> int (length g)
      then Some (map (\<lambda>e. g ! nat (off + int e)) [0..<8]) else None)"

text \<open>What one thread reads from A and B for slice \<open>idx_k\<close> (lines 93--98, 209--220 and
  240--247).\<close>

definition thread_loads :: "'a kargs \<Rightarrow> int \<times> int \<Rightarrow> int \<Rightarrow> int \<Rightarrow> ('a list \<times> 'a list) option" where
  "thread_loads a b idx_k t = do {
     off_A \<leftarrow> load_g_A_off a (snd b) idx_k t;
     v_A \<leftarrow> ld128 (arg_A a) off_A;
     off_B \<leftarrow> load_g_B_off a (fst b) idx_k t;
     v_B \<leftarrow> ld128 (arg_B a) off_B;
     Some (v_A, v_B) }"

subsection \<open>Shared memory\<close>

text \<open>Element index of \<^verbatim>\<open>s_A[buf][m][k]\<close> in \<^verbatim>\<open>half s_A[2][BM][BK+PAD]\<close> and of
  \<^verbatim>\<open>s_B[buf][k][n]\<close> in \<^verbatim>\<open>half s_B[2][BK][BN+PAD]\<close>. The synchronous kernel's
  \<^verbatim>\<open>s_A[BM][BK]\<close> and \<^verbatim>\<open>s_B[BK][BN]\<close> are the case \<open>buf = 0\<close>, \<open>PAD = 0\<close>.
  The padding is a count of extra elements per row.\<close>

definition s_A_idx :: "nat \<Rightarrow> int \<Rightarrow> int \<Rightarrow> int \<Rightarrow> int" where
  "s_A_idx pad buf m k = (buf * BM + m) * (BK + int pad) + k"

definition s_B_idx :: "nat \<Rightarrow> int \<Rightarrow> int \<Rightarrow> int \<Rightarrow> int" where
  "s_B_idx pad buf k n = (buf * BK + k) * (BN + int pad) + n"

definition st128 :: "(int \<Rightarrow> 'a) \<Rightarrow> int \<Rightarrow> 'a list \<Rightarrow> int \<Rightarrow> 'a" where
  "st128 s addr v = (\<lambda>x. if addr \<le> x \<and> x < addr + 8 then v ! nat (x - addr) else s x)"

subsection \<open>Fragments\<close>

type_synonym 'a frag = "'a list list"

definition fill_fragment :: "'a \<Rightarrow> 'a frag" where
  "fill_fragment v = replicate 16 (replicate 16 v)"

definition frag_addrs :: "int \<Rightarrow> int \<Rightarrow> int list" where
  "frag_addrs base ldm = concat (map (\<lambda>r. map (\<lambda>c. base + int r * ldm + int c) [0..<16]) [0..<16])"

definition load_matrix_sync :: "(int \<Rightarrow> 'a) \<Rightarrow> int \<Rightarrow> int \<Rightarrow> 'a frag" where
  "load_matrix_sync s base ldm =
     map (\<lambda>r. map (\<lambda>c. s (base + int r * ldm + int c)) [0..<16]) [0..<16]"

definition frag_cells :: "(nat \<times> nat) list" where
  "frag_cells = concat (map (\<lambda>r. map (\<lambda>c. (r, c)) [0..<16]) [0..<16])"

definition store_matrix_sync :: "'a list \<Rightarrow> int \<Rightarrow> 'a frag \<Rightarrow> int \<Rightarrow> 'a list option" where
  "store_matrix_sync g base f ldm =
     (if list_all (\<lambda>x. 0 \<le> x \<and> x < int (length g)) (frag_addrs base ldm)
      then Some (foldl (\<lambda>g' (r, c). g'[nat (base + int r * ldm + int c) := f ! r ! c]) g frag_cells)
      else None)"

text \<open>Row of the block tile at which \<^verbatim>\<open>frag_A[i]\<close> of warp \<open>w\<close> starts, column at which
  \<^verbatim>\<open>frag_B[j]\<close> starts (lines 113, 117).\<close>

definition frag_row :: "int \<Rightarrow> nat \<Rightarrow> int" where
  "frag_row w i = warp_m w * (WMMA_PER_WARP_M * WMMA_SIZE_M) + int i * WMMA_SIZE_M"

definition frag_col :: "int \<Rightarrow> nat \<Rightarrow> int" where
  "frag_col w j = warp_n w * (WMMA_PER_WARP_N * WMMA_SIZE_N) + int j * WMMA_SIZE_N"

text \<open>Lines 136--138: the element offset in C of the pointer handed to
  \<^verbatim>\<open>store_matrix_sync\<close>. The product \<^verbatim>\<open>store_g_C_m * N\<close> is an \<^verbatim>\<open>int\<close> product;
  the two additions to the pointer \<^verbatim>\<open>C\<close> are pointer arithmetic.\<close>

definition store_g_C_m :: "int \<Rightarrow> int \<Rightarrow> nat \<Rightarrow> int option" where
  "store_g_C_m b_y w i = do {
     p \<leftarrow> mul_int b_y BM;
     q \<leftarrow> add_int p (warp_m w * (WMMA_SIZE_M * WMMA_PER_WARP_M));
     add_int q (int i * WMMA_SIZE_M) }"

definition store_g_C_n :: "int \<Rightarrow> int \<Rightarrow> nat \<Rightarrow> int option" where
  "store_g_C_n b_x w j = do {
     p \<leftarrow> mul_int b_x BN;
     q \<leftarrow> add_int p (warp_n w * (WMMA_SIZE_N * WMMA_PER_WARP_N));
     add_int q (int j * WMMA_SIZE_N) }"

definition store_base :: "int \<Rightarrow> int \<times> int \<Rightarrow> int \<Rightarrow> nat \<Rightarrow> nat \<Rightarrow> int option" where
  "store_base n b w i j = do {
     g_m \<leftarrow> store_g_C_m (snd b) w i;
     g_n \<leftarrow> store_g_C_n (fst b) w j;
     p \<leftarrow> mul_int g_m n;
     Some (p + g_n) }"

text \<open>The element offsets of C that the store of \<^verbatim>\<open>frag_C[i][j]\<close> by warp \<open>w\<close> of
  block \<open>b\<close> writes.\<close>

definition store_addrs :: "int \<Rightarrow> int \<times> int \<Rightarrow> int \<Rightarrow> nat \<Rightarrow> nat \<Rightarrow> int list option" where
  "store_addrs n b w i j = map_option (\<lambda>base. frag_addrs base (to_unsigned n)) (store_base n b w i j)"

subsection \<open>The state of one block\<close>

datatype smem = S_A | S_B

type_synonym 'a cp = "smem \<times> int \<times> 'a list"

record 'a block_state =
  s_A :: "int \<Rightarrow> 'a"
  s_B :: "int \<Rightarrow> 'a"
  cp_open :: "'a cp list"
  cp_groups :: "'a cp list list"
  frag_A :: "int \<times> nat \<Rightarrow> 'a frag"
  frag_B :: "int \<times> nat \<Rightarrow> 'a frag"
  frag_C :: "int \<times> nat \<times> nat \<Rightarrow> 'a frag"
  g_C :: "'a list"

text \<open>What the hardware, not the source, decides: the tensor-core operation and the bit
  pattern of zero, the order in which the blocks of a grid and the threads of a block run
  (per instruction), and what shared memory and registers hold before they are written.\<close>

record 'a gpu =
  mma_sync :: "'a frag \<Rightarrow> 'a frag \<Rightarrow> 'a frag \<Rightarrow> 'a frag"
  half_zero :: 'a
  block_order :: "int \<Rightarrow> int \<Rightarrow> (int \<times> int) list"
  thread_order :: "int \<times> int \<Rightarrow> nat \<Rightarrow> int list"
  junk_s_A :: "int \<times> int \<Rightarrow> int \<Rightarrow> 'a"
  junk_s_B :: "int \<times> int \<Rightarrow> int \<Rightarrow> 'a"
  junk_frag :: "'a frag"

definition init_state :: "'a gpu \<Rightarrow> int \<times> int \<Rightarrow> 'a list \<Rightarrow> 'a block_state" where
  "init_state hw b c =
     \<lparr> s_A = junk_s_A hw b, s_B = junk_s_B hw b, cp_open = [], cp_groups = [],
       frag_A = (\<lambda>_. junk_frag hw), frag_B = (\<lambda>_. junk_frag hw), frag_C = (\<lambda>_. junk_frag hw),
       g_C = c \<rparr>"

text \<open>An asynchronous copy is in flight from its issue until the wait that completes its
  group. Reading an element a copy in flight targets is undefined.\<close>

definition targets :: "'a cp \<Rightarrow> smem \<Rightarrow> int \<Rightarrow> bool" where
  "targets c a x = (case c of (a', d, v) \<Rightarrow> a' = a \<and> d \<le> x \<and> x < d + 8)"

definition in_flight :: "'a block_state \<Rightarrow> smem \<Rightarrow> int \<Rightarrow> bool" where
  "in_flight st a x = list_ex (\<lambda>c. targets c a x) (cp_open st @ concat (cp_groups st))"

definition complete_cp :: "'a block_state \<Rightarrow> 'a cp \<Rightarrow> 'a block_state" where
  "complete_cp st c =
     (case c of
        (S_A, d, v) \<Rightarrow> st\<lparr>s_A := st128 (s_A st) d v\<rparr>
      | (S_B, d, v) \<Rightarrow> st\<lparr>s_B := st128 (s_B st) d v\<rparr>)"

subsection \<open>Instructions and their effect\<close>

datatype op =
    Thread_setup
  | Fill_fragment nat nat
  | Ldst128 int
  | Cp_async int int
  | Cp_async_commit_group
  | Cp_async_wait_group nat
  | Syncthreads
  | Load_matrix_A nat int
  | Load_matrix_B nat int
  | Mma_sync nat nat
  | Store_matrix nat nat

fun for_each :: "('x \<Rightarrow> 's \<Rightarrow> 's option) \<Rightarrow> 'x list \<Rightarrow> 's \<Rightarrow> 's option" where
  "for_each f [] s = Some s"
| "for_each f (x # xs) s = f x s \<bind> for_each f xs"

text \<open>The warps of a block, in the order in which their first thread is scheduled.\<close>

definition warps :: "int list \<Rightarrow> int list" where
  "warps ts = remdups (map warp_id ts)"

definition thread_setup :: "int \<times> int \<Rightarrow> int \<Rightarrow> 'a block_state \<Rightarrow> 'a block_state option" where
  "thread_setup b t st = do {
     _ \<leftarrow> load_g_A_m (snd b) t;
     _ \<leftarrow> load_g_B_n (fst b) t;
     Some st }"

text \<open>The two 16-byte transfers of one thread for slice \<open>idx_k\<close>, into buffer \<open>buf\<close>: the
  synchronous kernel performs them at once (lines 97--98), the asynchronous kernel issues
  them as \<^verbatim>\<open>cp.async\<close> copies (lines 215--220, 244--247).\<close>

definition thread_copies :: "'a kargs \<Rightarrow> int \<times> int \<Rightarrow> nat \<Rightarrow> int \<Rightarrow> int \<Rightarrow> int \<Rightarrow> 'a cp list option" where
  "thread_copies a b pad buf idx_k t = do {
     (v_A, v_B) \<leftarrow> thread_loads a b idx_k t;
     Some [(S_A, s_A_idx pad buf (load_s_A_m t) (load_s_A_k t), v_A),
           (S_B, s_B_idx pad buf (load_s_B_k t) (load_s_B_n t), v_B)] }"

definition ldst128 :: "'a kargs \<Rightarrow> int \<times> int \<Rightarrow> nat \<Rightarrow> int \<Rightarrow> int \<Rightarrow> 'a block_state \<Rightarrow> 'a block_state option" where
  "ldst128 a b pad idx_k t st = map_option (foldl complete_cp st) (thread_copies a b pad 0 idx_k t)"

definition cp_async :: "'a kargs \<Rightarrow> int \<times> int \<Rightarrow> nat \<Rightarrow> int \<Rightarrow> int \<Rightarrow> int \<Rightarrow> 'a block_state \<Rightarrow> 'a block_state option" where
  "cp_async a b pad buf idx_k t st =
     map_option (\<lambda>cs. st\<lparr>cp_open := cp_open st @ cs\<rparr>) (thread_copies a b pad buf idx_k t)"

definition load_A :: "nat \<Rightarrow> nat \<Rightarrow> int \<Rightarrow> int \<Rightarrow> 'a block_state \<Rightarrow> 'a block_state option" where
  "load_A pad i buf w st =
     (let base = s_A_idx pad buf (frag_row w i) 0; ldm = BK + int pad in
      if list_ex (in_flight st S_A) (frag_addrs base ldm) then None
      else Some (st\<lparr>frag_A := (frag_A st)((w, i) := load_matrix_sync (s_A st) base ldm)\<rparr>))"

definition load_B :: "nat \<Rightarrow> nat \<Rightarrow> int \<Rightarrow> int \<Rightarrow> 'a block_state \<Rightarrow> 'a block_state option" where
  "load_B pad j buf w st =
     (let base = s_B_idx pad buf 0 (frag_col w j); ldm = BN + int pad in
      if list_ex (in_flight st S_B) (frag_addrs base ldm) then None
      else Some (st\<lparr>frag_B := (frag_B st)((w, j) := load_matrix_sync (s_B st) base ldm)\<rparr>))"

definition mma :: "'a gpu \<Rightarrow> nat \<Rightarrow> nat \<Rightarrow> int \<Rightarrow> 'a block_state \<Rightarrow> 'a block_state option" where
  "mma hw i j w st =
     Some (st\<lparr>frag_C := (frag_C st)((w, i, j) :=
        mma_sync hw (frag_A st (w, i)) (frag_B st (w, j)) (frag_C st (w, i, j)))\<rparr>)"

definition store_C :: "'a kargs \<Rightarrow> int \<times> int \<Rightarrow> nat \<Rightarrow> nat \<Rightarrow> int \<Rightarrow> 'a block_state \<Rightarrow> 'a block_state option" where
  "store_C a b i j w st = do {
     base \<leftarrow> store_base (arg_N a) b w i j;
     c \<leftarrow> store_matrix_sync (g_C st) base (frag_C st (w, i, j)) (to_unsigned (arg_N a));
     Some (st\<lparr>g_C := c\<rparr>) }"

fun exec :: "'a gpu \<Rightarrow> 'a kargs \<Rightarrow> int \<times> int \<Rightarrow> nat \<Rightarrow> int list \<Rightarrow> op \<Rightarrow> 'a block_state \<Rightarrow> 'a block_state option" where
  "exec hw a b pad ts Thread_setup st = for_each (thread_setup b) ts st"
| "exec hw a b pad ts (Fill_fragment i j) st =
     for_each (\<lambda>w s. Some (s\<lparr>frag_C := (frag_C s)((w, i, j) := fill_fragment (half_zero hw))\<rparr>)) (warps ts) st"
| "exec hw a b pad ts (Ldst128 idx_k) st = for_each (ldst128 a b pad idx_k) ts st"
| "exec hw a b pad ts (Cp_async buf idx_k) st = for_each (cp_async a b pad buf idx_k) ts st"
| "exec hw a b pad ts Cp_async_commit_group st =
     Some (st\<lparr>cp_groups := cp_groups st @ [cp_open st], cp_open := []\<rparr>)"
| "exec hw a b pad ts (Cp_async_wait_group n) st =
     (let k = length (cp_groups st) - n in
      Some (foldl complete_cp (st\<lparr>cp_groups := drop k (cp_groups st)\<rparr>) (concat (take k (cp_groups st)))))"
| "exec hw a b pad ts Syncthreads st = Some st"
| "exec hw a b pad ts (Load_matrix_A i buf) st = for_each (load_A pad i buf) (warps ts) st"
| "exec hw a b pad ts (Load_matrix_B j buf) st = for_each (load_B pad j buf) (warps ts) st"
| "exec hw a b pad ts (Mma_sync i j) st = for_each (mma hw i j) (warps ts) st"
| "exec hw a b pad ts (Store_matrix i j) st = for_each (store_C a b i j) (warps ts) st"

fun run :: "'a gpu \<Rightarrow> 'a kargs \<Rightarrow> int \<times> int \<Rightarrow> nat \<Rightarrow> nat \<Rightarrow> op list \<Rightarrow> 'a block_state \<Rightarrow> 'a block_state option" where
  "run hw a b pad pc [] st = Some st"
| "run hw a b pad pc (x # xs) st =
     exec hw a b pad (thread_order hw b pc) x st \<bind> run hw a b pad (Suc pc) xs"

subsection \<open>The instruction sequences of the two kernels\<close>

definition fill_ops :: "op list" where
  "fill_ops = concat (map (\<lambda>i. map (\<lambda>j. Fill_fragment i j) [0..<nat WMMA_PER_WARP_N]) [0..<nat WMMA_PER_WARP_M])"

text \<open>Lines 110--127 (and 259--276, 295--312): the fragment loads from buffer \<open>buf\<close> and
  the eight multiply-accumulates.\<close>

definition load_ops :: "int \<Rightarrow> op list" where
  "load_ops buf =
     map (\<lambda>i. Load_matrix_A i buf) [0..<nat WMMA_PER_WARP_M] @
     map (\<lambda>j. Load_matrix_B j buf) [0..<nat WMMA_PER_WARP_N]"

definition mma_ops :: "op list" where
  "mma_ops = concat (map (\<lambda>i. map (\<lambda>j. Mma_sync i j) [0..<nat WMMA_PER_WARP_N]) [0..<nat WMMA_PER_WARP_M])"

definition compute_ops :: "int \<Rightarrow> op list" where
  "compute_ops buf = load_ops buf @ mma_ops"

definition store_ops :: "op list" where
  "store_ops = concat (map (\<lambda>i. map (\<lambda>j. Store_matrix i j) [0..<nat WMMA_PER_WARP_N]) [0..<nat WMMA_PER_WARP_M])"

text \<open>The index pairs \<open>(i, j)\<close> of a warp's accumulators, in the order of the source's
  nested loops.\<close>

definition tile_pairs :: "(nat \<times> nat) list" where
  "tile_pairs = List.product [0..<2] [0..<4]"

text \<open>Lines 90--130, one iteration and the loop.\<close>

definition sync_body :: "int \<Rightarrow> op list" where
  "sync_body idx_k = [Ldst128 idx_k, Syncthreads] @ compute_ops 0 @ [Syncthreads]"

function sync_loop :: "int \<Rightarrow> int \<Rightarrow> op list" where
  "sync_loop k idx_k =
     (if idx_k < k sdiv WMMA_SIZE_K then sync_body idx_k @ sync_loop k (idx_k + 1) else [])"
  by pat_completeness auto
termination
  by (relation "measure (\<lambda>(k, idx_k). nat (k sdiv WMMA_SIZE_K - idx_k))") auto

declare sync_loop.simps [simp del]

definition sync_ops :: "int \<Rightarrow> op list" where
  "sync_ops k = [Thread_setup] @ fill_ops @ sync_loop k 0 @ store_ops"

text \<open>Lines 209--225 (fill of buffer 0), 231--282 (one iteration and the loop), 286--312
  (drain).\<close>

definition async_fill :: "op list" where
  "async_fill = [Cp_async 0 0, Cp_async_commit_group, Cp_async_wait_group 0, Syncthreads]"

definition async_body :: "int \<Rightarrow> op list" where
  "async_body idx_k =
     (let curr_buf = (idx_k - 1) AND 1; next_buf = idx_k AND 1 in
      [Cp_async next_buf idx_k] @ compute_ops curr_buf @
      [Cp_async_commit_group, Cp_async_wait_group 0, Syncthreads])"

function async_loop :: "int \<Rightarrow> int \<Rightarrow> op list" where
  "async_loop k idx_k =
     (if idx_k < k sdiv WMMA_SIZE_K then async_body idx_k @ async_loop k (idx_k + 1) else [])"
  by pat_completeness auto
termination
  by (relation "measure (\<lambda>(k, idx_k). nat (k sdiv WMMA_SIZE_K - idx_k))") auto

declare async_loop.simps [simp del]

definition last_buf :: "int \<Rightarrow> int" where
  "last_buf k = ((k sdiv WMMA_SIZE_K) - 1) AND 1"

definition async_ops :: "int \<Rightarrow> op list" where
  "async_ops k =
     [Thread_setup] @ fill_ops @ async_fill @ async_loop k 1 @ compute_ops (last_buf k) @ store_ops"



subsection \<open>The kernels, for one block, and a launch\<close>

definition hgemm_kernel :: "'a gpu \<Rightarrow> 'a kargs \<Rightarrow> int \<times> int \<Rightarrow> 'a list \<Rightarrow> 'a list option" where
  "hgemm_kernel hw a b c =
     map_option g_C (run hw a b 0 0 (sync_ops (arg_K a)) (init_state hw b c))"

definition hgemm_kernel_async :: "nat \<Rightarrow> 'a gpu \<Rightarrow> 'a kargs \<Rightarrow> int \<times> int \<Rightarrow> 'a list \<Rightarrow> 'a list option" where
  "hgemm_kernel_async pad hw a b c =
     map_option g_C (run hw a b pad 0 (async_ops (arg_K a)) (init_state hw b c))"

text \<open>The blocks of a \<^verbatim>\<open>dim3 grid(gx, gy)\<close>. A launch runs the kernel once for every
  block, in the order the hardware chooses; the blocks share the output buffer.\<close>

definition grid_blocks :: "int \<Rightarrow> int \<Rightarrow> (int \<times> int) list" where
  "grid_blocks gx gy =
     concat (map (\<lambda>y. map (\<lambda>x. (int x, int y)) [0..<nat (to_unsigned gx)]) [0..<nat (to_unsigned gy)])"

definition launch :: "(int \<times> int \<Rightarrow> 'a list \<Rightarrow> 'a list option) \<Rightarrow> (int \<times> int) list \<Rightarrow> 'a list \<Rightarrow> 'a list option" where
  "launch kern bs c = for_each kern bs c"

definition well_scheduled :: "'a gpu \<Rightarrow> int \<Rightarrow> int \<Rightarrow> bool" where
  "well_scheduled hw gx gy \<longleftrightarrow>
     set (block_order hw gx gy) = set (grid_blocks gx gy) \<and> distinct (block_order hw gx gy) \<and>
     (\<forall>b pc. set (thread_order hw b pc) = set block_tids)"




subsection \<open>The host wrappers (lines 332--417)\<close>

datatype scalar_type = kHalf | kBFloat16 | kFloat | kDouble | kInt | kLong












subsection \<open>Reference values\<close>

text \<open>Slice \<open>k\<close> can be staged when every thread's two reads are defined. Then the staged
  slice of A holds at row \<open>m\<close>, column \<open>kk\<close> what the thread that owns the segment read,
  and likewise for B.\<close>

definition setup_ok :: "int \<times> int \<Rightarrow> bool" where
  "setup_ok b \<longleftrightarrow>
     list_all (\<lambda>t. load_g_A_m (snd b) t \<noteq> None \<and> load_g_B_n (fst b) t \<noteq> None) block_tids"

definition slice_ok :: "'a kargs \<Rightarrow> int \<times> int \<Rightarrow> int \<Rightarrow> bool" where
  "slice_ok a b k \<longleftrightarrow> list_all (\<lambda>t. thread_loads a b k t \<noteq> None) block_tids"

definition slice_A :: "'a kargs \<Rightarrow> int \<times> int \<Rightarrow> int \<Rightarrow> int \<Rightarrow> int \<Rightarrow> 'a" where
  "slice_A a b k m kk = fst (the (thread_loads a b k (2 * m + kk div 8))) ! nat (kk mod 8)"

definition slice_B :: "'a kargs \<Rightarrow> int \<times> int \<Rightarrow> int \<Rightarrow> int \<Rightarrow> int \<Rightarrow> 'a" where
  "slice_B a b k kk n = snd (the (thread_loads a b k (16 * kk + n div 8))) ! nat (n mod 8)"

text \<open>The copies the threads \<open>ts\<close> make for slice \<open>k\<close>, and a buffer that holds slice \<open>k\<close>.\<close>

definition staged_copies :: "'a kargs \<Rightarrow> int \<times> int \<Rightarrow> nat \<Rightarrow> int \<Rightarrow> int \<Rightarrow> int list \<Rightarrow> 'a cp list" where
  "staged_copies a b pad buf k ts = concat (map (\<lambda>t. the (thread_copies a b pad buf k t)) ts)"

definition holds :: "'a kargs \<Rightarrow> int \<times> int \<Rightarrow> nat \<Rightarrow> 'a block_state \<Rightarrow> int \<Rightarrow> int \<Rightarrow> bool" where
  "holds a b pad st buf k \<longleftrightarrow>
     (\<forall>m kk. 0 \<le> m \<and> m < BM \<and> 0 \<le> kk \<and> kk < BK \<longrightarrow> s_A st (s_A_idx pad buf m kk) = slice_A a b k m kk) \<and>
     (\<forall>kk n. 0 \<le> kk \<and> kk < BK \<and> 0 \<le> n \<and> n < BN \<longrightarrow> s_B st (s_B_idx pad buf kk n) = slice_B a b k kk n)"

text \<open>No copy in flight targets buffer \<open>buf\<close>; an instruction that leaves shared memory, the
  copy queue and the output alone.\<close>

definition quiet :: "nat \<Rightarrow> 'a block_state \<Rightarrow> int \<Rightarrow> bool" where
  "quiet pad st buf \<longleftrightarrow>
     (\<forall>m kk. 0 \<le> m \<and> m < BM \<and> 0 \<le> kk \<and> kk < BK \<longrightarrow> \<not> in_flight st S_A (s_A_idx pad buf m kk)) \<and>
     (\<forall>kk n. 0 \<le> kk \<and> kk < BK \<and> 0 \<le> n \<and> n < BN \<longrightarrow> \<not> in_flight st S_B (s_B_idx pad buf kk n))"

definition same_mem :: "'a block_state \<Rightarrow> 'a block_state \<Rightarrow> bool" where
  "same_mem st st' \<longleftrightarrow>
     s_A st' = s_A st \<and> s_B st' = s_B st \<and> cp_open st' = cp_open st \<and>
     cp_groups st' = cp_groups st \<and> g_C st' = g_C st"

definition ref_frag_A :: "'a kargs \<Rightarrow> int \<times> int \<Rightarrow> int \<Rightarrow> int \<Rightarrow> nat \<Rightarrow> 'a frag" where
  "ref_frag_A a b k w i =
     map (\<lambda>r. map (\<lambda>c. slice_A a b k (frag_row w i + int r) (int c)) [0..<16]) [0..<16]"

definition ref_frag_B :: "'a kargs \<Rightarrow> int \<times> int \<Rightarrow> int \<Rightarrow> int \<Rightarrow> nat \<Rightarrow> 'a frag" where
  "ref_frag_B a b k w j =
     map (\<lambda>r. map (\<lambda>c. slice_B a b k (int r) (frag_col w j + int c)) [0..<16]) [0..<16]"

text \<open>The accumulator \<^verbatim>\<open>frag_C[i][j]\<close> of warp \<open>w\<close> after slices \<open>0, ..., n - 1\<close> have been
  multiply-accumulated into it, each once, in this order.\<close>

definition acc_ref :: "'a gpu \<Rightarrow> 'a kargs \<Rightarrow> int \<times> int \<Rightarrow> int \<Rightarrow> nat \<Rightarrow> nat \<Rightarrow> nat \<Rightarrow> 'a frag" where
  "acc_ref hw a b w i j n =
     foldl (\<lambda>acc k. mma_sync hw (ref_frag_A a b (int k) w i) (ref_frag_B a b (int k) w j) acc)
       (fill_fragment (half_zero hw)) [0..<n]"

definition accumulated :: "'a gpu \<Rightarrow> 'a kargs \<Rightarrow> int \<times> int \<Rightarrow> 'a block_state \<Rightarrow> nat \<Rightarrow> bool" where
  "accumulated hw a b st n \<longleftrightarrow>
     (\<forall>w i j. 0 \<le> w \<and> w < 8 \<and> i < 2 \<and> j < 4 \<longrightarrow> frag_C st (w, i, j) = acc_ref hw a b w i j n)"

text \<open>The block, the warp and the accumulator \<open>(i, j)\<close> whose 16 x 16 tile holds
  element \<open>(m, n)\<close> of C, and the value that accumulator has for the element.\<close>

definition elem_block :: "int \<Rightarrow> int \<Rightarrow> int \<times> int" where
  "elem_block m n = (n div 128, m div 128)"

definition elem_warp :: "int \<Rightarrow> int \<Rightarrow> int" where
  "elem_warp m n = 2 * ((m mod 128) div 32) + (n mod 128) div 64"

definition elem_frag :: "int \<Rightarrow> int \<Rightarrow> nat \<times> nat" where
  "elem_frag m n = (nat ((m mod 32) div 16), nat ((n mod 64) div 16))"

definition elem_val :: "'a block_state \<Rightarrow> int \<Rightarrow> int \<Rightarrow> 'a" where
  "elem_val st m n = frag_C st (elem_warp m n, elem_frag m n) ! nat (m mod 16) ! nat (n mod 16)"

text \<open>The value the launch leaves in element \<open>(m, n)\<close> of C: element
  \<open>(m mod 16, n mod 16)\<close> of the accumulator of the tile the element lies in.\<close>

definition out_elem :: "'a gpu \<Rightarrow> 'a kargs \<Rightarrow> int \<Rightarrow> int \<Rightarrow> 'a" where
  "out_elem hw a m n =
     acc_ref hw a (n div 128, m div 128) (2 * ((m mod 128) div 32) + (n mod 128) div 64)
       (nat ((m mod 32) div 16)) (nat ((n mod 64) div 16)) (nat (arg_K a div 16))
     ! nat (m mod 16) ! nat (n mod 16)"

definition out_ref :: "'a gpu \<Rightarrow> 'a kargs \<Rightarrow> 'a list" where
  "out_ref hw a =
     map (\<lambda>x. out_elem hw a (int x div arg_N a) (int x mod arg_N a)) [0..<nat (arg_M a * arg_N a)]"

text \<open>A launch as the wrappers make it, on contiguous row-major tensors whose offsets fit
  an \<^verbatim>\<open>int\<close>.\<close>

definition valid_launch :: "'a kargs \<Rightarrow> 'a list \<Rightarrow> bool" where
  "valid_launch a c \<longleftrightarrow>
     0 \<le> arg_M a \<and> arg_M a mod 128 = 0 \<and> 0 \<le> arg_N a \<and> arg_N a mod 128 = 0 \<and>
     0 \<le> arg_K a \<and> arg_K a mod 16 = 0 \<and>
     int (length (arg_A a)) = arg_M a * arg_K a \<and> int (length (arg_B a)) = arg_K a * arg_N a \<and>
     int (length c) = arg_M a * arg_N a \<and>
     arg_M a * arg_K a \<le> INT_MAX \<and> arg_K a * arg_N a \<le> INT_MAX \<and> arg_M a * arg_N a \<le> INT_MAX"

subsection \<open>A concrete machine\<close>





section \<open>Properties\<close>

subsection \<open>Arithmetic and the block's threads\<close>

lemma sdiv_nonneg: "0 \<le> a \<Longrightarrow> 0 < b \<Longrightarrow> (a::int) sdiv b = a div b"
  by (simp add: signed_divide_int_def sgn_if)

lemmas tile_defs = WARP_SIZE_def WMMA_SIZE_M_def WMMA_SIZE_N_def WMMA_SIZE_K_def
  WARPS_PER_BLOCK_M_def WARPS_PER_BLOCK_N_def WMMA_PER_WARP_M_def WMMA_PER_WARP_N_def
  BM_def BN_def BK_def NUM_THREADS_def

lemma smod_nonneg: "0 \<le> a \<Longrightarrow> 0 < b \<Longrightarrow> (a::int) smod b = a mod b"
  by (simp add: signed_modulo_int_def sgn_if)

lemma ex_offset: "(\<exists>e\<in>{0..<n}. k = a + int e) \<longleftrightarrow> a \<le> k \<and> k < a + int n"
proof
  assume "\<exists>e\<in>{0..<n}. k = a + int e"
  then show "a \<le> k \<and> k < a + int n" by auto
next
  assume h: "a \<le> k \<and> k < a + int n"
  then have "nat (k - a) \<in> {0..<n}" "k = a + int (nat (k - a))" by auto
  then show "\<exists>e\<in>{0..<n}. k = a + int e" by blast
qed

lemma set_block_tids: "set block_tids = {0..<256}"
  by (simp add: block_tids_def tid_def tile_defs image_int_atLeastLessThan)

lemma block_tids_eq: "block_tids = map int [0..<256]"
  by (simp add: block_tids_def tid_def tile_defs)

lemma distinct_block_tids: "distinct block_tids"
  by (simp add: block_tids_eq distinct_map inj_on_def)

lemma in_seg_A: "0 \<le> t \<Longrightarrow> (m, k) \<in> set (seg_A t) \<longleftrightarrow> m = t div 2 \<and> k div 8 = t mod 2 \<and> 0 \<le> k \<and> k < 16"
proof -
  assume t: "0 \<le> t"
  have "t mod 2 = 0 \<or> t mod 2 = 1" by presburger
  then show ?thesis
    unfolding seg_A_def load_s_A_m_def load_s_A_k_def using t
    by (auto simp add: sdiv_nonneg smod_nonneg image_iff ex_offset)
qed

lemma dm: "0 \<le> r \<Longrightarrow> r < d \<Longrightarrow> ((d::int) * q + r) div d = q \<and> (d * q + r) mod d = r"
  by (simp add: div_pos_pos_trivial mod_pos_pos_trivial)

lemma seg_bounds: "0 \<le> j \<Longrightarrow> j < c \<Longrightarrow> (j * 8 \<le> n \<and> n < j * 8 + 8) \<longleftrightarrow> (n div 8 = j \<and> 0 \<le> n \<and> n < c * 8)" for j n c :: int
  by auto

lemma in_seg_B: "0 \<le> t \<Longrightarrow> (k, n) \<in> set (seg_B t) \<longleftrightarrow> k = t div 16 \<and> n div 8 = t mod 16 \<and> 0 \<le> n \<and> n < 128"
  unfolding seg_B_def load_s_B_k_def load_s_B_n_def
  using seg_bounds[of "t mod 16" 16 n]
  by (simp add: sdiv_nonneg smod_nonneg image_iff ex_offset)

lemma distinct_seg_A: "distinct (seg_A t)"
  by (simp add: seg_A_def distinct_map inj_on_def)

lemma distinct_seg_B: "distinct (seg_B t)"
  by (simp add: seg_B_def distinct_map inj_on_def)

lemma distinct_concat_map:
  assumes "distinct xs" "\<And>x. x \<in> set xs \<Longrightarrow> distinct (f x)"
    "\<And>x y. x \<in> set xs \<Longrightarrow> y \<in> set xs \<Longrightarrow> x \<noteq> y \<Longrightarrow> set (f x) \<inter> set (f y) = {}"
  shows "distinct (concat (map f xs))"
  using assms by (induction xs) auto

text \<open>
  C8. In every reduction step of either variant (\<open>ldst128\<close> and \<open>cp_async\<close> place a
  thread's transfer at \<open>load_s_A_m\<close>, \<open>load_s_A_k\<close>, \<open>load_s_B_k\<close>, \<open>load_s_B_n\<close>),
  the segments of the 256 threads of a block are 8 halves long, start at a multiple of 8,
  never overlap (no coordinate occurs twice in the concatenation of all segments), and
  together are exactly the 128 x 16 slice of A and the 16 x 128 slice of B.
\<close>

theorem load_offsets_partition:
  "distinct (concat (map seg_A block_tids)) \<and>
   set (concat (map seg_A block_tids)) = {0..<BM} \<times> {0..<BK} \<and>
   distinct (concat (map seg_B block_tids)) \<and>
   set (concat (map seg_B block_tids)) = {0..<BK} \<times> {0..<BN} \<and>
   length block_tids = 256 \<and>
   (\<forall>t. length (seg_A t) = 8 \<and> length (seg_B t) = 8 \<and> load_s_A_k t mod 8 = 0 \<and> load_s_B_n t mod 8 = 0)"
proof -
  have dA: "distinct (concat (map seg_A block_tids))"
  proof (rule distinct_concat_map)
    fix x y assume "x \<in> set block_tids" "y \<in> set block_tids" "x \<noteq> y"
    then have xy: "0 \<le> x" "0 \<le> y" "x \<noteq> y" by (auto simp: set_block_tids)
    show "set (seg_A x) \<inter> set (seg_A y) = {}"
    proof (rule ccontr)
      assume "set (seg_A x) \<inter> set (seg_A y) \<noteq> {}"
      then obtain m k where "(m, k) \<in> set (seg_A x)" "(m, k) \<in> set (seg_A y)" by auto
      with xy have "x div 2 = y div 2" "x mod 2 = y mod 2" by (auto simp: in_seg_A)
      then have "x = y" by (metis div_mult_mod_eq)
      with xy show False by simp
    qed
  qed (simp_all add: distinct_block_tids distinct_seg_A)
  have dB: "distinct (concat (map seg_B block_tids))"
  proof (rule distinct_concat_map)
    fix x y assume "x \<in> set block_tids" "y \<in> set block_tids" "x \<noteq> y"
    then have xy: "0 \<le> x" "0 \<le> y" "x \<noteq> y" by (auto simp: set_block_tids)
    show "set (seg_B x) \<inter> set (seg_B y) = {}"
    proof (rule ccontr)
      assume "set (seg_B x) \<inter> set (seg_B y) \<noteq> {}"
      then obtain m k where "(m, k) \<in> set (seg_B x)" "(m, k) \<in> set (seg_B y)" by auto
      with xy have "x div 16 = y div 16" "x mod 16 = y mod 16" by (auto simp: in_seg_B)
      then have "x = y" by (metis div_mult_mod_eq)
      with xy show False by simp
    qed
  qed (simp_all add: distinct_block_tids distinct_seg_B)
  have sA: "set (concat (map seg_A block_tids)) = {0..<BM} \<times> {0..<BK}"
  proof (rule set_eqI)
    fix p :: "int \<times> int"
    obtain m k where p: "p = (m, k)" by (cases p)
    have "p \<in> set (concat (map seg_A block_tids)) \<longleftrightarrow> (\<exists>t. 0 \<le> t \<and> t < 256 \<and> (m, k) \<in> set (seg_A t))"
      by (auto simp: p set_block_tids)
    also have "\<dots> \<longleftrightarrow> (\<exists>t. 0 \<le> t \<and> t < 256 \<and> m = t div 2 \<and> k div 8 = t mod 2 \<and> 0 \<le> k \<and> k < 16)"
      using in_seg_A by blast
    also have "\<dots> \<longleftrightarrow> 0 \<le> m \<and> m < 128 \<and> 0 \<le> k \<and> k < 16"
    proof
      assume "\<exists>t. 0 \<le> t \<and> t < 256 \<and> m = t div 2 \<and> k div 8 = t mod 2 \<and> 0 \<le> k \<and> k < 16"
      then show "0 \<le> m \<and> m < 128 \<and> 0 \<le> k \<and> k < 16" by auto
    next
      assume h: "0 \<le> m \<and> m < 128 \<and> 0 \<le> k \<and> k < 16"
      then have "0 \<le> k div 8" "k div 8 < 2" by auto
      with h dm[of "k div 8" 2 m]
      have "0 \<le> 2 * m + k div 8 \<and> 2 * m + k div 8 < 256 \<and> m = (2 * m + k div 8) div 2 \<and>
          k div 8 = (2 * m + k div 8) mod 2 \<and> 0 \<le> k \<and> k < 16"
        by auto
      then show "\<exists>t. 0 \<le> t \<and> t < 256 \<and> m = t div 2 \<and> k div 8 = t mod 2 \<and> 0 \<le> k \<and> k < 16"
        by blast
    qed
    finally show "p \<in> set (concat (map seg_A block_tids)) \<longleftrightarrow> p \<in> {0..<BM} \<times> {0..<BK}"
      by (simp add: p tile_defs)
  qed
  have sB: "set (concat (map seg_B block_tids)) = {0..<BK} \<times> {0..<BN}"
  proof (rule set_eqI)
    fix p :: "int \<times> int"
    obtain k n where p: "p = (k, n)" by (cases p)
    have "p \<in> set (concat (map seg_B block_tids)) \<longleftrightarrow> (\<exists>t. 0 \<le> t \<and> t < 256 \<and> (k, n) \<in> set (seg_B t))"
      by (auto simp: p set_block_tids)
    also have "\<dots> \<longleftrightarrow> (\<exists>t. 0 \<le> t \<and> t < 256 \<and> k = t div 16 \<and> n div 8 = t mod 16 \<and> 0 \<le> n \<and> n < 128)"
      using in_seg_B by blast
    also have "\<dots> \<longleftrightarrow> 0 \<le> k \<and> k < 16 \<and> 0 \<le> n \<and> n < 128"
    proof
      assume "\<exists>t. 0 \<le> t \<and> t < 256 \<and> k = t div 16 \<and> n div 8 = t mod 16 \<and> 0 \<le> n \<and> n < 128"
      then show "0 \<le> k \<and> k < 16 \<and> 0 \<le> n \<and> n < 128" by auto
    next
      assume h: "0 \<le> k \<and> k < 16 \<and> 0 \<le> n \<and> n < 128"
      then have "0 \<le> n div 8" "n div 8 < 16" by auto
      with h dm[of "n div 8" 16 k]
      have "0 \<le> 16 * k + n div 8 \<and> 16 * k + n div 8 < 256 \<and> k = (16 * k + n div 8) div 16 \<and>
          n div 8 = (16 * k + n div 8) mod 16 \<and> 0 \<le> n \<and> n < 128"
        by auto
      then show "\<exists>t. 0 \<le> t \<and> t < 256 \<and> k = t div 16 \<and> n div 8 = t mod 16 \<and> 0 \<le> n \<and> n < 128"
        by blast
    qed
    finally show "p \<in> set (concat (map seg_B block_tids)) \<longleftrightarrow> p \<in> {0..<BK} \<times> {0..<BN}"
      by (simp add: p tile_defs)
  qed
  have len: "length block_tids = 256" by (simp add: block_tids_eq)
  have al: "\<forall>t. length (seg_A t) = 8 \<and> length (seg_B t) = 8 \<and> load_s_A_k t mod 8 = 0 \<and> load_s_B_n t mod 8 = 0"
    by (simp add: seg_A_def seg_B_def load_s_A_k_def load_s_B_n_def)
  from dA sA dB sB len al show ?thesis by blast
qed

subsection \<open>The host wrappers\<close>









subsection \<open>The instruction sequences\<close>











lemma foldl_complete_frag_C: "frag_C (foldl complete_cp st cs) = frag_C st"
  by (induction cs arbitrary: st) (auto simp: complete_cp_def split: smem.splits)








lemma thread_loads_M: "thread_loads (a\<lparr>arg_M := m\<rparr>) b k t = thread_loads a b k t"
  by (simp add: thread_loads_def load_g_A_off_def load_g_B_off_def)

lemma exec_M: "exec hw (a\<lparr>arg_M := m\<rparr>) b pad ts x st = exec hw a b pad ts x st"
proof (cases x)
  case (Ldst128 k)
  have "ldst128 (a\<lparr>arg_M := m\<rparr>) b pad k = ldst128 a b pad k"
    by (intro ext) (simp add: ldst128_def thread_copies_def thread_loads_M)
  with Ldst128 show ?thesis by simp
next
  case (Cp_async buf k)
  have "cp_async (a\<lparr>arg_M := m\<rparr>) b pad buf k = cp_async a b pad buf k"
    by (intro ext) (simp add: cp_async_def thread_copies_def thread_loads_M)
  with Cp_async show ?thesis by simp
next
  case (Store_matrix i j)
  have "store_C (a\<lparr>arg_M := m\<rparr>) b i j = store_C a b i j"
    by (intro ext) (simp add: store_C_def)
  with Store_matrix show ?thesis by simp
qed simp_all

lemma run_M: "run hw (a\<lparr>arg_M := m\<rparr>) b pad pc xs st = run hw a b pad pc xs st"
proof (induction xs arbitrary: pc st)
  case Nil
  show ?case by simp
next
  case (Cons x xs)
  have "run hw (a\<lparr>arg_M := m\<rparr>) b pad (Suc pc) xs = run hw a b pad (Suc pc) xs"
    by (intro ext) (rule Cons.IH)
  then show ?case by (simp add: exec_M)
qed

text \<open>
  C10. Neither kernel reads \<open>M\<close>: with another value of \<open>M\<close> and everything else fixed
  (the blocks of the grid included), a block ends in the same state (the staged slices and
  the accumulators among it), every thread reads the same elements of A and B, every
  store writes the same elements of C, and a launch leaves the same output.
\<close>

theorem kernels_never_read_M:
  "run hw (a\<lparr>arg_M := m\<rparr>) b 0 0 (sync_ops (arg_K (a\<lparr>arg_M := m\<rparr>))) st = run hw a b 0 0 (sync_ops (arg_K a)) st \<and>
   run hw (a\<lparr>arg_M := m\<rparr>) b pad 0 (async_ops (arg_K (a\<lparr>arg_M := m\<rparr>))) st = run hw a b pad 0 (async_ops (arg_K a)) st \<and>
   thread_loads (a\<lparr>arg_M := m\<rparr>) b idx_k t = thread_loads a b idx_k t \<and>
   store_addrs (arg_N (a\<lparr>arg_M := m\<rparr>)) b w i j = store_addrs (arg_N a) b w i j \<and>
   launch (hgemm_kernel hw (a\<lparr>arg_M := m\<rparr>)) bs c = launch (hgemm_kernel hw a) bs c \<and>
   launch (hgemm_kernel_async pad hw (a\<lparr>arg_M := m\<rparr>)) bs c = launch (hgemm_kernel_async pad hw a) bs c"
proof -
  have "hgemm_kernel hw (a\<lparr>arg_M := m\<rparr>) = hgemm_kernel hw a"
    by (intro ext) (simp add: hgemm_kernel_def run_M)
  moreover have "hgemm_kernel_async pad hw (a\<lparr>arg_M := m\<rparr>) = hgemm_kernel_async pad hw a"
    by (intro ext) (simp add: hgemm_kernel_async_def run_M)
  ultimately show ?thesis by (simp add: run_M thread_loads_M)
qed

subsection \<open>The output writer\<close>




lemma set_warps: "set ts = set block_tids \<Longrightarrow> set (warps ts) = {0..<8}"
proof -
  assume "set ts = set block_tids"
  then have "set (warps ts) = warp_id ` {0..<256}"
    by (simp add: warps_def set_block_tids)
  also have "\<dots> = {0..<8}"
  proof (rule set_eqI)
    fix w :: int
    show "w \<in> warp_id ` {0..<256} \<longleftrightarrow> w \<in> {0..<8}"
    proof
      assume "w \<in> warp_id ` {0..<256}"
      then obtain t where "0 \<le> t" "t < 256" "w = t div 32"
        by (auto simp: warp_id_def WARP_SIZE_def sdiv_nonneg)
      then show "w \<in> {0..<8}" by auto
    next
      assume "w \<in> {0..<8}"
      then have "32 * w \<in> {0..<256}" "warp_id (32 * w) = w"
        by (auto simp: warp_id_def WARP_SIZE_def sdiv_nonneg)
      then show "w \<in> warp_id ` {0..<256}" by (metis imageI)
    qed
  qed
  finally show ?thesis .
qed

lemma distinct_warps: "distinct (warps ts)"
  by (simp add: warps_def)





lemma set_frag_addrs: "set (frag_addrs base ldm) = {base + r * ldm + c | r c. 0 \<le> r \<and> r < 16 \<and> 0 \<le> c \<and> c < 16}"
proof -
  have "set (frag_addrs base ldm) = (\<Union>r\<in>{0..<16::nat}. (\<lambda>c. base + int r * ldm + int c) ` {0..<16::nat})"
    by (simp add: frag_addrs_def)
  also have "\<dots> = {base + r * ldm + c | r c. 0 \<le> r \<and> r < 16 \<and> 0 \<le> c \<and> c < 16}"
  proof (rule set_eqI, rule iffI)
    fix x assume "x \<in> (\<Union>r\<in>{0..<16::nat}. (\<lambda>c. base + int r * ldm + int c) ` {0..<16::nat})"
    then obtain r c :: nat where "r < 16" "c < 16" "x = base + int r * ldm + int c" by auto
    then have "x = base + int r * ldm + int c \<and> 0 \<le> int r \<and> int r < 16 \<and> 0 \<le> int c \<and> int c < 16" by simp
    then show "x \<in> {base + r * ldm + c | r c. 0 \<le> r \<and> r < 16 \<and> 0 \<le> c \<and> c < 16}" by blast
  next
    fix x assume "x \<in> {base + r * ldm + c | r c. 0 \<le> r \<and> r < 16 \<and> 0 \<le> c \<and> c < 16}"
    then obtain r c :: int where rc: "0 \<le> r" "r < 16" "0 \<le> c" "c < 16" "x = base + r * ldm + c" by blast
    then have "nat r \<in> {0..<16}" "nat c \<in> {0..<16}" "x = base + int (nat r) * ldm + int (nat c)" by auto
    then show "x \<in> (\<Union>r\<in>{0..<16::nat}. (\<lambda>c. base + int r * ldm + int c) ` {0..<16::nat})" by blast
  qed
  finally show ?thesis .
qed




lemma div_bounds:
  fixes x :: int
  assumes "0 < c" "0 \<le> x" "x < b * c"
  shows "0 \<le> x div c" "x div c < b"
proof -
  show "0 \<le> x div c" using assms by (simp add: pos_imp_zdiv_nonneg_iff)
  show "x div c < b"
  proof (rule ccontr)
    assume "\<not> x div c < b"
    then have "b * c \<le> (x div c) * c"
      using assms(1) by (intro mult_right_mono) auto
    moreover have "(x div c) * c + x mod c = x"
      by (rule div_mult_mod_eq)
    moreover have "0 \<le> x mod c" using assms(1) by simp
    ultimately show False using assms(3) by linarith
  qed
qed





lemma w_digits:
  fixes w :: int
  assumes "0 \<le> w" "w < 8"
  shows "0 \<le> w div 2" "w div 2 < 4" "0 \<le> w mod 2" "w mod 2 < 2"
proof -
  show "0 \<le> w div 2" by (rule div_bounds(1)[where b=4]) (use assms in simp_all)
  show "w div 2 < 4" by (rule div_bounds(2)) (use assms in simp_all)
  show "0 \<le> w mod 2" "w mod 2 < 2" by simp_all
qed


lemma w_unique: fixes w w' :: int shows "w div 2 = w' div 2 \<Longrightarrow> w mod 2 = w' mod 2 \<Longrightarrow> w = w'"
  by (metis div_mult_mod_eq)
lemma rowcol_unique:
  fixes n :: int
  assumes "0 \<le> c1" "c1 < n" "0 \<le> c2" "c2 < n" "r1 * n + c1 = r2 * n + c2"
  shows "r1 = r2 \<and> c1 = c2"
proof -
  have "(n * r1 + c1) div n = r1" "(n * r2 + c2) div n = r2" using assms dm by blast+
  moreover have "n * r1 + c1 = n * r2 + c2" using assms(5) by (simp add: mult.commute)
  ultimately have "r1 = r2" by simp
  with assms(5) show ?thesis by simp
qed



















subsection \<open>The semantics of the reduction\<close>

subsection \<open>Sequencing\<close>

lemma for_each_append: "for_each f (xs @ ys) s = for_each f xs s \<bind> for_each f ys"
proof (induction xs arbitrary: s)
  case Nil
  show ?case by simp
next
  case (Cons x xs)
  show ?case
  proof (cases "f x s")
    case None
    then show ?thesis by simp
  next
    case (Some s1)
    then show ?thesis using Cons.IH[of s1] by simp
  qed
qed

lemma run_append:
  "run hw a b pad pc (xs @ ys) st = run hw a b pad pc xs st \<bind> run hw a b pad (pc + length xs) ys"
proof (induction xs arbitrary: pc st)
  case Nil
  show ?case by simp
next
  case (Cons x xs)
  show ?case
  proof (cases "exec hw a b pad (thread_order hw b pc) x st")
    case None
    then show ?thesis by simp
  next
    case (Some s1)
    then show ?thesis using Cons.IH[of "Suc pc" s1] by simp
  qed
qed

lemma for_each_None:
  assumes "x \<in> set xs" "\<And>s. f x s = None"
  shows "for_each f xs s = None"
  using assms(1)
proof (induction xs arbitrary: s)
  case Nil
  then show ?case by simp
next
  case (Cons y ys)
  show ?case
  proof (cases "f y s")
    case None
    then show ?thesis by simp
  next
    case (Some s1)
    with assms(2)[of s] have "y \<noteq> x" by auto
    with Cons.prems have "x \<in> set ys" by simp
    from Cons.IH[OF this] Some show ?thesis by simp
  qed
qed

lemma for_each_Some:
  assumes "\<And>x s. x \<in> set xs \<Longrightarrow> f x s = Some (g x s)"
  shows "for_each f xs s = Some (foldl (\<lambda>s x. g x s) s xs)"
  using assms by (induction xs arbitrary: s) simp_all

subsection \<open>Completing copies\<close>

lemma foldl_complete_fields:
  "cp_open (foldl complete_cp st cs) = cp_open st"
  "cp_groups (foldl complete_cp st cs) = cp_groups st"
  "frag_A (foldl complete_cp st cs) = frag_A st"
  "frag_B (foldl complete_cp st cs) = frag_B st"
  "g_C (foldl complete_cp st cs) = g_C st"
  by (induction cs arbitrary: st; auto simp: complete_cp_def split: smem.splits)+

lemma complete_cp_s_A: "s_A (complete_cp st c) x = (if targets c S_A x then snd (snd c) ! nat (x - fst (snd c)) else s_A st x)"
  by (auto simp: complete_cp_def targets_def st128_def split: smem.splits prod.splits)

lemma complete_cp_s_B: "s_B (complete_cp st c) x = (if targets c S_B x then snd (snd c) ! nat (x - fst (snd c)) else s_B st x)"
  by (auto simp: complete_cp_def targets_def st128_def split: smem.splits prod.splits)

lemma foldl_complete_s_A_frame:
  "\<forall>c\<in>set cs. \<not> targets c S_A x \<Longrightarrow> s_A (foldl complete_cp st cs) x = s_A st x"
  by (induction cs arbitrary: st) (simp_all add: complete_cp_s_A)

lemma foldl_complete_s_B_frame:
  "\<forall>c\<in>set cs. \<not> targets c S_B x \<Longrightarrow> s_B (foldl complete_cp st cs) x = s_B st x"
  by (induction cs arbitrary: st) (simp_all add: complete_cp_s_B)

lemma foldl_complete_s_A_val:
  assumes "\<exists>c\<in>set cs. targets c S_A x"
    and "\<forall>c\<in>set cs. targets c S_A x \<longrightarrow> snd (snd c) ! nat (x - fst (snd c)) = y"
  shows "s_A (foldl complete_cp st cs) x = y"
  using assms
proof (induction cs arbitrary: st)
  case Nil
  then show ?case by simp
next
  case (Cons c cs)
  show ?case
  proof (cases "\<exists>c'\<in>set cs. targets c' S_A x")
    case True
    from Cons.IH[OF True] Cons.prems(2) show ?thesis by simp
  next
    case False
    with Cons.prems(1) have t: "targets c S_A x" by auto
    from False have "s_A (foldl complete_cp (complete_cp st c) cs) x = s_A (complete_cp st c) x"
      by (intro foldl_complete_s_A_frame) blast
    with t Cons.prems(2) show ?thesis by (simp add: complete_cp_s_A)
  qed
qed

lemma foldl_complete_s_B_val:
  assumes "\<exists>c\<in>set cs. targets c S_B x"
    and "\<forall>c\<in>set cs. targets c S_B x \<longrightarrow> snd (snd c) ! nat (x - fst (snd c)) = y"
  shows "s_B (foldl complete_cp st cs) x = y"
  using assms
proof (induction cs arbitrary: st)
  case Nil
  then show ?case by simp
next
  case (Cons c cs)
  show ?case
  proof (cases "\<exists>c'\<in>set cs. targets c' S_B x")
    case True
    from Cons.IH[OF True] Cons.prems(2) show ?thesis by simp
  next
    case False
    with Cons.prems(1) have t: "targets c S_B x" by auto
    from False have "s_B (foldl complete_cp (complete_cp st c) cs) x = s_B (complete_cp st c) x"
      by (intro foldl_complete_s_B_frame) blast
    with t Cons.prems(2) show ?thesis by (simp add: complete_cp_s_B)
  qed
qed

subsection \<open>Shared-memory addresses\<close>

lemma buf_row_unique:
  fixes m m' :: int
  assumes "0 \<le> m" "m < 128" "0 \<le> m'" "m' < 128" "buf = 0 \<or> buf = 1" "buf' = 0 \<or> buf' = 1"
    "buf * 128 + m = buf' * 128 + m'"
  shows "buf = buf' \<and> m = m'"
  using assms by auto

lemma s_A_idx_window:
  assumes "0 \<le> m" "m < 128" "0 \<le> m'" "m' < 128" "buf = 0 \<or> buf = 1" "buf' = 0 \<or> buf' = 1"
    "0 \<le> kk" "kk < 16" "k0 = 0 \<or> k0 = 8"
  shows "(s_A_idx pad buf m' k0 \<le> s_A_idx pad buf' m kk \<and> s_A_idx pad buf' m kk < s_A_idx pad buf m' k0 + 8)
         \<longleftrightarrow> buf = buf' \<and> m = m' \<and> k0 \<le> kk \<and> kk < k0 + 8"
proof
  assume h: "s_A_idx pad buf m' k0 \<le> s_A_idx pad buf' m kk \<and> s_A_idx pad buf' m kk < s_A_idx pad buf m' k0 + 8"
  define e where "e = s_A_idx pad buf' m kk - s_A_idx pad buf m' k0"
  have e: "0 \<le> e" "e < 8" using h by (auto simp: e_def)
  have "(buf' * 128 + m) * (16 + int pad) + kk = (buf * 128 + m') * (16 + int pad) + (k0 + e)"
    by (simp add: e_def s_A_idx_def tile_defs)
  moreover have "0 \<le> k0 + e" "k0 + e < 16 + int pad" "kk < 16 + int pad" using e assms(8,9) by auto
  ultimately have u: "buf' * 128 + m = buf * 128 + m' \<and> kk = k0 + e"
    using rowcol_unique[of kk "16 + int pad" "k0 + e" "buf' * 128 + m" "buf * 128 + m'"] assms(7) by blast
  with buf_row_unique[OF assms(1,2,3,4,6,5)] have "buf' = buf \<and> m = m'" by blast
  with u e show "buf = buf' \<and> m = m' \<and> k0 \<le> kk \<and> kk < k0 + 8" by auto
next
  assume "buf = buf' \<and> m = m' \<and> k0 \<le> kk \<and> kk < k0 + 8"
  then show "s_A_idx pad buf m' k0 \<le> s_A_idx pad buf' m kk \<and> s_A_idx pad buf' m kk < s_A_idx pad buf m' k0 + 8"
    by (simp add: s_A_idx_def)
qed

lemma buf_row_unique16:
  fixes k k' :: int
  assumes "0 \<le> k" "k < 16" "0 \<le> k'" "k' < 16" "buf = 0 \<or> buf = 1" "buf' = 0 \<or> buf' = 1"
    "buf * 16 + k = buf' * 16 + k'"
  shows "buf = buf' \<and> k = k'"
  using assms by auto

lemma s_B_idx_window:
  assumes "0 \<le> kk" "kk < 16" "0 \<le> k'" "k' < 16" "buf = 0 \<or> buf = 1" "buf' = 0 \<or> buf' = 1"
    "0 \<le> n" "n < 128" "0 \<le> n0" "n0 + 8 \<le> 128"
  shows "(s_B_idx pad buf k' n0 \<le> s_B_idx pad buf' kk n \<and> s_B_idx pad buf' kk n < s_B_idx pad buf k' n0 + 8)
         \<longleftrightarrow> buf = buf' \<and> kk = k' \<and> n0 \<le> n \<and> n < n0 + 8"
proof
  assume h: "s_B_idx pad buf k' n0 \<le> s_B_idx pad buf' kk n \<and> s_B_idx pad buf' kk n < s_B_idx pad buf k' n0 + 8"
  define e where "e = s_B_idx pad buf' kk n - s_B_idx pad buf k' n0"
  have e: "0 \<le> e" "e < 8" using h by (auto simp: e_def)
  have "(buf' * 16 + kk) * (128 + int pad) + n = (buf * 16 + k') * (128 + int pad) + (n0 + e)"
    by (simp add: e_def s_B_idx_def tile_defs)
  moreover have "0 \<le> n0 + e" "n0 + e < 128 + int pad" "n < 128 + int pad" using e assms(8,9,10) by auto
  ultimately have u: "buf' * 16 + kk = buf * 16 + k' \<and> n = n0 + e"
    using rowcol_unique[of n "128 + int pad" "n0 + e" "buf' * 16 + kk" "buf * 16 + k'"] assms(7) by blast
  with buf_row_unique16[OF assms(1,2,3,4,6,5)] have "buf' = buf \<and> kk = k'" by blast
  with u e show "buf = buf' \<and> kk = k' \<and> n0 \<le> n \<and> n < n0 + 8" by auto
next
  assume "buf = buf' \<and> kk = k' \<and> n0 \<le> n \<and> n < n0 + 8"
  then show "s_B_idx pad buf k' n0 \<le> s_B_idx pad buf' kk n \<and> s_B_idx pad buf' kk n < s_B_idx pad buf k' n0 + 8"
    by (simp add: s_B_idx_def)
qed

subsection \<open>What a thread transfers\<close>

lemma thread_idx:
  assumes "t \<in> set block_tids"
  shows "0 \<le> load_s_A_m t" "load_s_A_m t < 128" "load_s_A_k t = 0 \<or> load_s_A_k t = 8"
    "0 \<le> load_s_B_k t" "load_s_B_k t < 16" "0 \<le> load_s_B_n t" "load_s_B_n t + 8 \<le> 128"
proof -
  from assms have t: "0 \<le> t" "t < 256" by (simp_all add: set_block_tids)
  have m: "load_s_A_m t = t div 2" "load_s_B_k t = t div 16" "load_s_B_n t = (t mod 16) * 8"
    using t by (simp_all add: load_s_A_m_def load_s_B_k_def load_s_B_n_def sdiv_nonneg smod_nonneg)
  show "0 \<le> load_s_A_m t" unfolding m by (rule div_bounds(1)[where b=128]) (use t in simp_all)
  show "load_s_A_m t < 128" unfolding m by (rule div_bounds(2)) (use t in simp_all)
  show "load_s_A_k t = 0 \<or> load_s_A_k t = 8" by (simp add: load_s_A_k_def)
  show "0 \<le> load_s_B_k t" unfolding m by (rule div_bounds(1)[where b=16]) (use t in simp_all)
  show "load_s_B_k t < 16" unfolding m by (rule div_bounds(2)) (use t in simp_all)
  have "0 \<le> t mod 16" "t mod 16 < 16" by simp_all
  then show "0 \<le> load_s_B_n t" "load_s_B_n t + 8 \<le> 128" unfolding m by linarith+
qed

lemma seg_A_mem: "(m, kk) \<in> set (seg_A t) \<longleftrightarrow> m = load_s_A_m t \<and> load_s_A_k t \<le> kk \<and> kk < load_s_A_k t + 8"
  by (simp add: seg_A_def image_iff ex_offset)

lemma seg_B_mem: "(kk, n) \<in> set (seg_B t) \<longleftrightarrow> kk = load_s_B_k t \<and> load_s_B_n t \<le> n \<and> n < load_s_B_n t + 8"
  by (simp add: seg_B_def image_iff ex_offset)

lemma owner_A:
  assumes "0 \<le> m" "m < 128" "0 \<le> kk" "kk < 16"
  shows "2 * m + kk div 8 \<in> set block_tids" "(m, kk) \<in> set (seg_A (2 * m + kk div 8))"
    "t \<in> set block_tids \<Longrightarrow> (m, kk) \<in> set (seg_A t) \<Longrightarrow> t = 2 * m + kk div 8"
    "kk - load_s_A_k (2 * m + kk div 8) = kk mod 8"
proof -
  have q: "0 \<le> kk div 8" "kk div 8 < 2"
    by (rule div_bounds(1)[where b=2], (use assms in simp_all)[3], rule div_bounds(2), (use assms in simp_all)[3])
  have d: "(2 * m + kk div 8) div 2 = m" "(2 * m + kk div 8) mod 2 = kk div 8"
    using dm[OF q, of m] by simp_all
  show o: "2 * m + kk div 8 \<in> set block_tids" using assms q by (simp add: set_block_tids)
  then have nn: "0 \<le> 2 * m + kk div 8" by (simp add: set_block_tids)
  show "(m, kk) \<in> set (seg_A (2 * m + kk div 8))"
    unfolding in_seg_A[OF nn] d using assms by simp
  show "t = 2 * m + kk div 8" if "t \<in> set block_tids" "(m, kk) \<in> set (seg_A t)"
  proof -
    from that(1) have "0 \<le> t" by (simp add: set_block_tids)
    from that(2)[unfolded in_seg_A[OF this]] have "m = t div 2" "kk div 8 = t mod 2" by simp_all
    then show ?thesis using mult_div_mod_eq[of 2 t] by simp
  qed
  have "load_s_A_k (2 * m + kk div 8) = 8 * (kk div 8)"
    using nn q by (auto simp: load_s_A_k_def smod_nonneg d)
  then show "kk - load_s_A_k (2 * m + kk div 8) = kk mod 8"
    by (simp add: minus_mult_div_eq_mod)
qed

lemma owner_B:
  assumes "0 \<le> kk" "kk < 16" "0 \<le> n" "n < 128"
  shows "16 * kk + n div 8 \<in> set block_tids" "(kk, n) \<in> set (seg_B (16 * kk + n div 8))"
    "t \<in> set block_tids \<Longrightarrow> (kk, n) \<in> set (seg_B t) \<Longrightarrow> t = 16 * kk + n div 8"
    "n - load_s_B_n (16 * kk + n div 8) = n mod 8"
proof -
  have q: "0 \<le> n div 8" "n div 8 < 16"
    by (rule div_bounds(1)[where b=16], (use assms in simp_all)[3], rule div_bounds(2), (use assms in simp_all)[3])
  have d: "(16 * kk + n div 8) div 16 = kk" "(16 * kk + n div 8) mod 16 = n div 8"
    using dm[OF q, of kk] by simp_all
  show o: "16 * kk + n div 8 \<in> set block_tids" using assms q by (simp add: set_block_tids)
  then have nn: "0 \<le> 16 * kk + n div 8" by (simp add: set_block_tids)
  show "(kk, n) \<in> set (seg_B (16 * kk + n div 8))"
    unfolding in_seg_B[OF nn] d using assms by simp
  show "t = 16 * kk + n div 8" if "t \<in> set block_tids" "(kk, n) \<in> set (seg_B t)"
  proof -
    from that(1) have "0 \<le> t" by (simp add: set_block_tids)
    from that(2)[unfolded in_seg_B[OF this]] have "kk = t div 16" "n div 8 = t mod 16" by simp_all
    then show ?thesis using mult_div_mod_eq[of 16 t] by simp
  qed
  have "load_s_B_n (16 * kk + n div 8) = 8 * (n div 8)"
    using nn q by (simp add: load_s_B_n_def smod_nonneg mod_pos_pos_trivial)
  then show "n - load_s_B_n (16 * kk + n div 8) = n mod 8"
    by (simp add: minus_mult_div_eq_mod)
qed

lemma slice_ok_iff: "slice_ok a b k \<longleftrightarrow> (\<forall>t\<in>set block_tids. thread_loads a b k t \<noteq> None)"
  by (simp add: slice_ok_def list_all_iff)

lemma thread_copies_eq:
  assumes "slice_ok a b k" "t \<in> set block_tids"
  shows "thread_copies a b pad buf k t =
     Some [(S_A, s_A_idx pad buf (load_s_A_m t) (load_s_A_k t), fst (the (thread_loads a b k t))),
           (S_B, s_B_idx pad buf (load_s_B_k t) (load_s_B_n t), snd (the (thread_loads a b k t)))]"
proof -
  from assms obtain v where "thread_loads a b k t = Some v" unfolding slice_ok_iff by blast
  then show ?thesis by (cases v) (simp add: thread_copies_def)
qed

lemma staged_copies_mem:
  assumes "slice_ok a b k" "set ts \<subseteq> set block_tids"
  shows "c \<in> set (staged_copies a b pad buf k ts) \<longleftrightarrow>
     (\<exists>t\<in>set ts. c = (S_A, s_A_idx pad buf (load_s_A_m t) (load_s_A_k t), fst (the (thread_loads a b k t))) \<or>
                  c = (S_B, s_B_idx pad buf (load_s_B_k t) (load_s_B_n t), snd (the (thread_loads a b k t))))"
proof -
  have "c \<in> set (staged_copies a b pad buf k ts) \<longleftrightarrow> (\<exists>t\<in>set ts. c \<in> set (the (thread_copies a b pad buf k t)))"
    by (auto simp: staged_copies_def)
  also have "\<dots> \<longleftrightarrow> (\<exists>t\<in>set ts. c \<in> set [(S_A, s_A_idx pad buf (load_s_A_m t) (load_s_A_k t), fst (the (thread_loads a b k t))),
           (S_B, s_B_idx pad buf (load_s_B_k t) (load_s_B_n t), snd (the (thread_loads a b k t)))])"
    using thread_copies_eq[OF assms(1)] assms(2) by (intro bex_cong refl) (simp add: subset_iff)
  finally show ?thesis by simp
qed

lemma targets_staged_A:
  assumes ok: "slice_ok a b k" and ts: "set ts \<subseteq> set block_tids"
    and r: "0 \<le> m" "m < 128" "0 \<le> kk" "kk < 16" and bf: "buf = 0 \<or> buf = 1" "buf' = 0 \<or> buf' = 1"
    and c: "c \<in> set (staged_copies a b pad buf k ts)" "targets c S_A (s_A_idx pad buf' m kk)"
  shows "buf' = buf \<and> 2 * m + kk div 8 \<in> set ts \<and>
         snd (snd c) ! nat (s_A_idx pad buf' m kk - fst (snd c)) = slice_A a b k m kk"
proof -
  from c(1)[unfolded staged_copies_mem[OF ok ts]] c(2)
  obtain t where t: "t \<in> set ts"
    "c = (S_A, s_A_idx pad buf (load_s_A_m t) (load_s_A_k t), fst (the (thread_loads a b k t)))"
    by (auto simp: targets_def)
  then have tt: "t \<in> set block_tids" using ts by blast
  note ti = thread_idx[OF tt]
  from c(2) have "s_A_idx pad buf (load_s_A_m t) (load_s_A_k t) \<le> s_A_idx pad buf' m kk \<and>
      s_A_idx pad buf' m kk < s_A_idx pad buf (load_s_A_m t) (load_s_A_k t) + 8"
    by (simp add: t(2) targets_def)
  from this[unfolded s_A_idx_window[OF r(1,2) ti(1,2) bf r(3,4) ti(3)]]
  have w: "buf = buf'" "m = load_s_A_m t" "load_s_A_k t \<le> kk" "kk < load_s_A_k t + 8" by blast+
  then have "(m, kk) \<in> set (seg_A t)" by (simp add: seg_A_mem)
  from owner_A(3)[OF r tt this] have o: "t = 2 * m + kk div 8" .
  have "s_A_idx pad buf' m kk - s_A_idx pad buf (load_s_A_m t) (load_s_A_k t) = kk - load_s_A_k t"
    using w by (simp add: s_A_idx_def)
  also have "\<dots> = kk mod 8" unfolding o by (rule owner_A(4)[OF r])
  finally have "snd (snd c) ! nat (s_A_idx pad buf' m kk - fst (snd c)) = slice_A a b k m kk"
    by (simp add: t(2) slice_A_def o)
  with w(1) t(1) o show ?thesis by blast
qed

lemma targets_staged_B:
  assumes ok: "slice_ok a b k" and ts: "set ts \<subseteq> set block_tids"
    and r: "0 \<le> kk" "kk < 16" "0 \<le> n" "n < 128" and bf: "buf = 0 \<or> buf = 1" "buf' = 0 \<or> buf' = 1"
    and c: "c \<in> set (staged_copies a b pad buf k ts)" "targets c S_B (s_B_idx pad buf' kk n)"
  shows "buf' = buf \<and> 16 * kk + n div 8 \<in> set ts \<and>
         snd (snd c) ! nat (s_B_idx pad buf' kk n - fst (snd c)) = slice_B a b k kk n"
proof -
  from c(1)[unfolded staged_copies_mem[OF ok ts]] c(2)
  obtain t where t: "t \<in> set ts"
    "c = (S_B, s_B_idx pad buf (load_s_B_k t) (load_s_B_n t), snd (the (thread_loads a b k t)))"
    by (auto simp: targets_def)
  then have tt: "t \<in> set block_tids" using ts by blast
  note ti = thread_idx[OF tt]
  from c(2) have "s_B_idx pad buf (load_s_B_k t) (load_s_B_n t) \<le> s_B_idx pad buf' kk n \<and>
      s_B_idx pad buf' kk n < s_B_idx pad buf (load_s_B_k t) (load_s_B_n t) + 8"
    by (simp add: t(2) targets_def)
  from this[unfolded s_B_idx_window[OF r(1,2) ti(4,5) bf r(3,4) ti(6,7)]]
  have w: "buf = buf'" "kk = load_s_B_k t" "load_s_B_n t \<le> n" "n < load_s_B_n t + 8" by blast+
  then have "(kk, n) \<in> set (seg_B t)" by (simp add: seg_B_mem)
  from owner_B(3)[OF r tt this] have o: "t = 16 * kk + n div 8" .
  have "s_B_idx pad buf' kk n - s_B_idx pad buf (load_s_B_k t) (load_s_B_n t) = n - load_s_B_n t"
    using w by (simp add: s_B_idx_def)
  also have "\<dots> = n mod 8" unfolding o by (rule owner_B(4)[OF r])
  finally have "snd (snd c) ! nat (s_B_idx pad buf' kk n - fst (snd c)) = slice_B a b k kk n"
    by (simp add: t(2) slice_B_def o)
  with w(1) t(1) o show ?thesis by blast
qed

lemma staged_targets_A:
  assumes ok: "slice_ok a b k" and ts: "set ts = set block_tids"
    and r: "0 \<le> m" "m < 128" "0 \<le> kk" "kk < 16"
  shows "\<exists>c\<in>set (staged_copies a b pad buf k ts). targets c S_A (s_A_idx pad buf m kk)"
proof -
  let ?t = "2 * m + kk div 8"
  have tt: "?t \<in> set ts" unfolding ts by (rule owner_A(1)[OF r])
  have "(m, kk) \<in> set (seg_A ?t)" by (rule owner_A(2)[OF r])
  then have s: "m = load_s_A_m ?t" "load_s_A_k ?t \<le> kk" "kk < load_s_A_k ?t + 8"
    unfolding seg_A_mem by blast+
  let ?c = "(S_A, s_A_idx pad buf (load_s_A_m ?t) (load_s_A_k ?t), fst (the (thread_loads a b k ?t)))"
  have "?c \<in> set (staged_copies a b pad buf k ts)"
    unfolding staged_copies_mem[OF ok eq_refl[OF ts]] using tt by blast
  moreover have "targets ?c S_A (s_A_idx pad buf m kk)"
    using s(2,3) by (simp add: targets_def s(1)[symmetric] s_A_idx_def)
  ultimately show ?thesis by blast
qed

lemma staged_targets_B:
  assumes ok: "slice_ok a b k" and ts: "set ts = set block_tids"
    and r: "0 \<le> kk" "kk < 16" "0 \<le> n" "n < 128"
  shows "\<exists>c\<in>set (staged_copies a b pad buf k ts). targets c S_B (s_B_idx pad buf kk n)"
proof -
  let ?t = "16 * kk + n div 8"
  have tt: "?t \<in> set ts" unfolding ts by (rule owner_B(1)[OF r])
  have "(kk, n) \<in> set (seg_B ?t)" by (rule owner_B(2)[OF r])
  then have s: "kk = load_s_B_k ?t" "load_s_B_n ?t \<le> n" "n < load_s_B_n ?t + 8"
    unfolding seg_B_mem by blast+
  let ?c = "(S_B, s_B_idx pad buf (load_s_B_k ?t) (load_s_B_n ?t), snd (the (thread_loads a b k ?t)))"
  have "?c \<in> set (staged_copies a b pad buf k ts)"
    unfolding staged_copies_mem[OF ok eq_refl[OF ts]] using tt by blast
  moreover have "targets ?c S_B (s_B_idx pad buf kk n)"
    using s(2,3) by (simp add: targets_def s(1)[symmetric] s_B_idx_def)
  ultimately show ?thesis by blast
qed

lemma staged_holds:
  assumes ok: "slice_ok a b k" and ts: "set ts = set block_tids" and bf: "buf = 0 \<or> buf = 1"
  shows "holds a b pad (foldl complete_cp st (staged_copies a b pad buf k ts)) buf k"
  unfolding holds_def
proof (intro conjI allI impI)
  fix m kk assume "0 \<le> m \<and> m < BM \<and> 0 \<le> kk \<and> kk < BK"
  then have r: "0 \<le> m" "m < 128" "0 \<le> kk" "kk < 16" by (simp_all add: tile_defs)
  show "s_A (foldl complete_cp st (staged_copies a b pad buf k ts)) (s_A_idx pad buf m kk) = slice_A a b k m kk"
  proof (rule foldl_complete_s_A_val)
    show "\<exists>c\<in>set (staged_copies a b pad buf k ts). targets c S_A (s_A_idx pad buf m kk)"
      by (rule staged_targets_A[OF ok ts r])
    show "\<forall>c\<in>set (staged_copies a b pad buf k ts). targets c S_A (s_A_idx pad buf m kk) \<longrightarrow>
        snd (snd c) ! nat (s_A_idx pad buf m kk - fst (snd c)) = slice_A a b k m kk"
      using targets_staged_A[OF ok eq_refl[OF ts] r bf bf] by blast
  qed
next
  fix kk n assume "0 \<le> kk \<and> kk < BK \<and> 0 \<le> n \<and> n < BN"
  then have r: "0 \<le> kk" "kk < 16" "0 \<le> n" "n < 128" by (simp_all add: tile_defs)
  show "s_B (foldl complete_cp st (staged_copies a b pad buf k ts)) (s_B_idx pad buf kk n) = slice_B a b k kk n"
  proof (rule foldl_complete_s_B_val)
    show "\<exists>c\<in>set (staged_copies a b pad buf k ts). targets c S_B (s_B_idx pad buf kk n)"
      by (rule staged_targets_B[OF ok ts r])
    show "\<forall>c\<in>set (staged_copies a b pad buf k ts). targets c S_B (s_B_idx pad buf kk n) \<longrightarrow>
        snd (snd c) ! nat (s_B_idx pad buf kk n - fst (snd c)) = slice_B a b k kk n"
      using targets_staged_B[OF ok eq_refl[OF ts] r bf bf] by blast
  qed
qed

lemma staged_other_buffer:
  assumes ok: "slice_ok a b k" and ts: "set ts \<subseteq> set block_tids"
    and bf: "buf = 0 \<or> buf = 1" "buf' = 0 \<or> buf' = 1" "buf' \<noteq> buf"
  shows "0 \<le> m \<Longrightarrow> m < 128 \<Longrightarrow> 0 \<le> kk \<Longrightarrow> kk < 16 \<Longrightarrow>
           \<forall>c\<in>set (staged_copies a b pad buf k ts). \<not> targets c S_A (s_A_idx pad buf' m kk)"
    and "0 \<le> kk \<Longrightarrow> kk < 16 \<Longrightarrow> 0 \<le> n \<Longrightarrow> n < 128 \<Longrightarrow>
           \<forall>c\<in>set (staged_copies a b pad buf k ts). \<not> targets c S_B (s_B_idx pad buf' kk n)"
  using targets_staged_A[OF ok ts _ _ _ _ bf(1,2)] targets_staged_B[OF ok ts _ _ _ _ bf(1,2)] bf(3)
  by blast+

subsection \<open>The effect of the thread-level instructions\<close>

lemma setup_ok_iff:
  "setup_ok b \<longleftrightarrow> (\<forall>t\<in>set block_tids. load_g_A_m (snd b) t \<noteq> None \<and> load_g_B_n (fst b) t \<noteq> None)"
  by (simp add: setup_ok_def list_all_iff)

lemma foldl_const: "foldl (\<lambda>s x. s) s xs = s"
  by (induction xs) simp_all

lemma exec_setup:
  assumes "set ts = set block_tids"
  shows "exec hw a b pad ts Thread_setup st = (if setup_ok b then Some st else None)"
proof (cases "setup_ok b")
  case True
  have "for_each (thread_setup b) ts st = Some (foldl (\<lambda>s x. s) st ts)"
  proof (rule for_each_Some)
    fix x s assume "x \<in> set ts"
    with True assms show "thread_setup b x s = Some s"
      unfolding setup_ok_iff by (auto simp: thread_setup_def)
  qed
  with True show ?thesis by (simp add: foldl_const)
next
  case False
  then obtain t where t0: "t \<in> set block_tids"
    and t2: "load_g_A_m (snd b) t = None \<or> load_g_B_n (fst b) t = None"
    unfolding setup_ok_iff by auto
  from t0 t2 assms have t: "t \<in> set ts" "load_g_A_m (snd b) t = None \<or> load_g_B_n (fst b) t = None"
    by simp_all
  have "for_each (thread_setup b) ts st = None"
  proof (rule for_each_None[OF t(1)])
    fix s show "thread_setup b t s = None"
      using t(2) by (auto simp: thread_setup_def split: bind_splits)
  qed
  with False show ?thesis by simp
qed

lemma foldl_foldl_concat:
  "foldl (\<lambda>s x. foldl f s (g x)) s xs = foldl f s (concat (map g xs))"
  by (induction xs arbitrary: s) simp_all

lemma exec_ldst:
  assumes "slice_ok a b k" "set ts = set block_tids"
  shows "exec hw a b pad ts (Ldst128 k) st = Some (foldl complete_cp st (staged_copies a b pad 0 k ts))"
proof -
  have "for_each (ldst128 a b pad k) ts st =
      Some (foldl (\<lambda>s x. foldl complete_cp s (the (thread_copies a b pad 0 k x))) st ts)"
  proof (rule for_each_Some)
    fix x s assume "x \<in> set ts"
    then have "x \<in> set block_tids" using assms(2) by simp
    from thread_copies_eq[OF assms(1) this]
    show "ldst128 a b pad k x s = Some (foldl complete_cp s (the (thread_copies a b pad 0 k x)))"
      by (simp add: ldst128_def)
  qed
  then show ?thesis by (simp add: foldl_foldl_concat staged_copies_def)
qed

lemma foldl_cp_open:
  "foldl (\<lambda>s x. s\<lparr>cp_open := cp_open s @ g x\<rparr>) s xs = s\<lparr>cp_open := cp_open s @ concat (map g xs)\<rparr>"
  by (induction xs arbitrary: s) simp_all

lemma exec_cp_async:
  assumes "slice_ok a b k" "set ts = set block_tids"
  shows "exec hw a b pad ts (Cp_async buf k) st =
           Some (st\<lparr>cp_open := cp_open st @ staged_copies a b pad buf k ts\<rparr>)"
proof -
  have "for_each (cp_async a b pad buf k) ts st =
      Some (foldl (\<lambda>s x. s\<lparr>cp_open := cp_open s @ the (thread_copies a b pad buf k x)\<rparr>) st ts)"
  proof (rule for_each_Some)
    fix x s assume "x \<in> set ts"
    then have "x \<in> set block_tids" using assms(2) by simp
    from thread_copies_eq[OF assms(1) this]
    show "cp_async a b pad buf k x s = Some (s\<lparr>cp_open := cp_open s @ the (thread_copies a b pad buf k x)\<rparr>)"
      by (simp add: cp_async_def)
  qed
  then show ?thesis by (simp add: foldl_cp_open staged_copies_def)
qed

lemma ex_None: "\<not> (\<forall>t\<in>S. f t \<noteq> None) \<Longrightarrow> \<exists>t\<in>S. f t = None"
  by simp

lemma exec_stage_fails:
  assumes "\<not> slice_ok a b k" "set ts = set block_tids"
  shows "exec hw a b pad ts (Ldst128 k) st = None" "exec hw a b pad ts (Cp_async buf k) st = None"
proof -
  from ex_None[OF assms(1)[unfolded slice_ok_iff]]
  obtain t where t0: "t \<in> set block_tids" and t2: "thread_loads a b k t = None" by (rule bexE)
  from t0 t2 assms(2) have t: "t \<in> set ts" "thread_loads a b k t = None" by simp_all
  then have tc: "thread_copies a b pad buf' k t = None" for buf'
    by (simp add: thread_copies_def)
  show "exec hw a b pad ts (Ldst128 k) st = None"
    using for_each_None[OF t(1), of "ldst128 a b pad k" st] tc by (simp add: ldst128_def)
  show "exec hw a b pad ts (Cp_async buf k) st = None"
    using for_each_None[OF t(1), of "cp_async a b pad buf k" st] tc by (simp add: cp_async_def)
qed

subsection \<open>The effect of the warp-level instructions\<close>

lemma same_mem_refl: "same_mem st st"
  by (simp add: same_mem_def)

lemma same_mem_trans: "same_mem st st1 \<Longrightarrow> same_mem st1 st2 \<Longrightarrow> same_mem st st2"
  by (simp add: same_mem_def)

lemma same_mem_in_flight: "same_mem st st' \<Longrightarrow> in_flight st' = in_flight st"
  by (intro ext) (simp add: same_mem_def in_flight_def)

lemma same_mem_quiet: "same_mem st st' \<Longrightarrow> quiet pad st' buf = quiet pad st buf"
  by (simp add: quiet_def same_mem_in_flight)

lemma same_mem_holds: "same_mem st st' \<Longrightarrow> holds a b pad st' buf k = holds a b pad st buf k"
  by (simp add: holds_def same_mem_def)

lemma for_each_fill:
  "\<exists>st'. for_each (\<lambda>w s. Some (s\<lparr>frag_C := (frag_C s)((w, i, j) := v)\<rparr>)) ws st = Some st' \<and>
     same_mem st st' \<and> frag_A st' = frag_A st \<and> frag_B st' = frag_B st \<and>
     (\<forall>key. frag_C st' key = (if fst key \<in> set ws \<and> snd key = (i, j) then v else frag_C st key))"
proof (induction ws arbitrary: st)
  case Nil
  show ?case by (simp add: same_mem_refl)
next
  case (Cons w ws)
  let ?s1 = "st\<lparr>frag_C := (frag_C st)((w, i, j) := v)\<rparr>"
  from Cons.IH[of ?s1] obtain st' where
    st': "for_each (\<lambda>w s. Some (s\<lparr>frag_C := (frag_C s)((w, i, j) := v)\<rparr>)) ws ?s1 = Some st'"
      "same_mem ?s1 st'" "frag_A st' = frag_A ?s1" "frag_B st' = frag_B ?s1"
      "\<forall>key. frag_C st' key = (if fst key \<in> set ws \<and> snd key = (i, j) then v else frag_C ?s1 key)"
    by blast
  have "same_mem st st'" using st'(2) by (simp add: same_mem_def)
  moreover have "\<forall>key. frag_C st' key = (if fst key \<in> set (w # ws) \<and> snd key = (i, j) then v else frag_C st key)"
    using st'(5) by (auto simp: prod_eq_iff)
  moreover have "for_each (\<lambda>w s. Some (s\<lparr>frag_C := (frag_C s)((w, i, j) := v)\<rparr>)) (w # ws) st = Some st'"
    using st'(1) by simp
  moreover have "frag_A st' = frag_A st" "frag_B st' = frag_B st" using st'(3,4) by simp_all
  ultimately show ?case by blast
qed

lemma for_each_mma:
  assumes "distinct ws"
  shows "\<exists>st'. for_each (mma hw i j) ws st = Some st' \<and>
     same_mem st st' \<and> frag_A st' = frag_A st \<and> frag_B st' = frag_B st \<and>
     (\<forall>key. frag_C st' key =
        (if fst key \<in> set ws \<and> snd key = (i, j)
         then mma_sync hw (frag_A st (fst key, i)) (frag_B st (fst key, j)) (frag_C st key)
         else frag_C st key))"
  using assms
proof (induction ws arbitrary: st)
  case Nil
  show ?case by (simp add: same_mem_refl)
next
  case (Cons w ws)
  let ?s1 = "st\<lparr>frag_C := (frag_C st)((w, i, j) :=
        mma_sync hw (frag_A st (w, i)) (frag_B st (w, j)) (frag_C st (w, i, j)))\<rparr>"
  from Cons.prems have d: "distinct ws" "w \<notin> set ws" by simp_all
  from Cons.IH[OF d(1), of ?s1] obtain st' where
    st': "for_each (mma hw i j) ws ?s1 = Some st'"
      "same_mem ?s1 st'" "frag_A st' = frag_A ?s1" "frag_B st' = frag_B ?s1"
      "\<forall>key. frag_C st' key =
        (if fst key \<in> set ws \<and> snd key = (i, j)
         then mma_sync hw (frag_A ?s1 (fst key, i)) (frag_B ?s1 (fst key, j)) (frag_C ?s1 key)
         else frag_C ?s1 key)"
    by blast
  have "same_mem st st'" using st'(2) by (simp add: same_mem_def)
  moreover have "\<forall>key. frag_C st' key =
        (if fst key \<in> set (w # ws) \<and> snd key = (i, j)
         then mma_sync hw (frag_A st (fst key, i)) (frag_B st (fst key, j)) (frag_C st key)
         else frag_C st key)"
    using st'(5) d(2) by (auto simp: prod_eq_iff)
  moreover have "for_each (mma hw i j) (w # ws) st = Some st'"
    using st'(1) by (simp add: mma_def)
  moreover have "frag_A st' = frag_A st" "frag_B st' = frag_B st" using st'(3,4) by simp_all
  ultimately show ?case by blast
qed

lemma for_each_load_A:
  assumes "\<forall>w\<in>set ws. \<not> list_ex (in_flight st S_A) (frag_addrs (s_A_idx pad buf (frag_row w i) 0) (BK + int pad))"
  shows "\<exists>st'. for_each (load_A pad i buf) ws st = Some st' \<and>
     same_mem st st' \<and> frag_B st' = frag_B st \<and> frag_C st' = frag_C st \<and>
     (\<forall>key. frag_A st' key =
        (if fst key \<in> set ws \<and> snd key = i
         then load_matrix_sync (s_A st) (s_A_idx pad buf (frag_row (fst key) i) 0) (BK + int pad)
         else frag_A st key))"
  using assms
proof (induction ws arbitrary: st)
  case Nil
  show ?case by (simp add: same_mem_refl)
next
  case (Cons w ws)
  let ?L = "\<lambda>w. load_matrix_sync (s_A st) (s_A_idx pad buf (frag_row w i) 0) (BK + int pad)"
  let ?s1 = "st\<lparr>frag_A := (frag_A st)((w, i) := ?L w)\<rparr>"
  have sm: "same_mem st ?s1" by (simp add: same_mem_def)
  have 1: "load_A pad i buf w st = Some ?s1"
    using Cons.prems by (simp add: load_A_def Let_def)
  have "\<forall>w\<in>set ws. \<not> list_ex (in_flight ?s1 S_A) (frag_addrs (s_A_idx pad buf (frag_row w i) 0) (BK + int pad))"
    using Cons.prems unfolding same_mem_in_flight[OF sm] by simp
  from Cons.IH[OF this] obtain st' where
    st': "for_each (load_A pad i buf) ws ?s1 = Some st'"
      "same_mem ?s1 st'" "frag_B st' = frag_B ?s1" "frag_C st' = frag_C ?s1"
      "\<forall>key. frag_A st' key =
        (if fst key \<in> set ws \<and> snd key = i
         then load_matrix_sync (s_A ?s1) (s_A_idx pad buf (frag_row (fst key) i) 0) (BK + int pad)
         else frag_A ?s1 key)"
    by blast
  have "same_mem st st'" using st'(2) by (simp add: same_mem_def)
  moreover have "\<forall>key. frag_A st' key =
        (if fst key \<in> set (w # ws) \<and> snd key = i then ?L (fst key) else frag_A st key)"
    using st'(5) by (auto simp: prod_eq_iff)
  moreover have "for_each (load_A pad i buf) (w # ws) st = Some st'"
    using st'(1) 1 by simp
  moreover have "frag_B st' = frag_B st" "frag_C st' = frag_C st" using st'(3,4) by simp_all
  ultimately show ?case by blast
qed

lemma for_each_load_B:
  assumes "\<forall>w\<in>set ws. \<not> list_ex (in_flight st S_B) (frag_addrs (s_B_idx pad buf 0 (frag_col w j)) (BN + int pad))"
  shows "\<exists>st'. for_each (load_B pad j buf) ws st = Some st' \<and>
     same_mem st st' \<and> frag_A st' = frag_A st \<and> frag_C st' = frag_C st \<and>
     (\<forall>key. frag_B st' key =
        (if fst key \<in> set ws \<and> snd key = j
         then load_matrix_sync (s_B st) (s_B_idx pad buf 0 (frag_col (fst key) j)) (BN + int pad)
         else frag_B st key))"
  using assms
proof (induction ws arbitrary: st)
  case Nil
  show ?case by (simp add: same_mem_refl)
next
  case (Cons w ws)
  let ?L = "\<lambda>w. load_matrix_sync (s_B st) (s_B_idx pad buf 0 (frag_col w j)) (BN + int pad)"
  let ?s1 = "st\<lparr>frag_B := (frag_B st)((w, j) := ?L w)\<rparr>"
  have sm: "same_mem st ?s1" by (simp add: same_mem_def)
  have 1: "load_B pad j buf w st = Some ?s1"
    using Cons.prems by (simp add: load_B_def Let_def)
  have "\<forall>w\<in>set ws. \<not> list_ex (in_flight ?s1 S_B) (frag_addrs (s_B_idx pad buf 0 (frag_col w j)) (BN + int pad))"
    using Cons.prems unfolding same_mem_in_flight[OF sm] by simp
  from Cons.IH[OF this] obtain st' where
    st': "for_each (load_B pad j buf) ws ?s1 = Some st'"
      "same_mem ?s1 st'" "frag_A st' = frag_A ?s1" "frag_C st' = frag_C ?s1"
      "\<forall>key. frag_B st' key =
        (if fst key \<in> set ws \<and> snd key = j
         then load_matrix_sync (s_B ?s1) (s_B_idx pad buf 0 (frag_col (fst key) j)) (BN + int pad)
         else frag_B ?s1 key)"
    by blast
  have "same_mem st st'" using st'(2) by (simp add: same_mem_def)
  moreover have "\<forall>key. frag_B st' key =
        (if fst key \<in> set (w # ws) \<and> snd key = j then ?L (fst key) else frag_B st key)"
    using st'(5) by (auto simp: prod_eq_iff)
  moreover have "for_each (load_B pad j buf) (w # ws) st = Some st'"
    using st'(1) 1 by simp
  moreover have "frag_A st' = frag_A st" "frag_C st' = frag_C st" using st'(3,4) by simp_all
  ultimately show ?case by blast
qed

subsection \<open>Fragment loads read the staged slice\<close>

lemma frag_row_bounds:
  assumes "0 \<le> w" "w < 8" "i < 2"
  shows "0 \<le> frag_row w i" "frag_row w i + 16 \<le> 128"
proof -
  note wd = w_digits[OF assms(1,2)]
  have e: "frag_row w i = (w div 2) * 32 + int i * 16"
    using assms(1) by (simp add: frag_row_def warp_m_def sdiv_nonneg tile_defs)
  show "0 \<le> frag_row w i" "frag_row w i + 16 \<le> 128" unfolding e using wd(1,2) assms(3) by linarith+
qed

lemma frag_col_bounds:
  assumes "0 \<le> w" "w < 8" "j < 4"
  shows "0 \<le> frag_col w j" "frag_col w j + 16 \<le> 128"
proof -
  note wd = w_digits[OF assms(1,2)]
  have e: "frag_col w j = (w mod 2) * 64 + int j * 16"
    using assms(1) by (simp add: frag_col_def warp_n_def smod_nonneg tile_defs)
  show "0 \<le> frag_col w j" "frag_col w j + 16 \<le> 128" unfolding e using wd(3,4) assms(3) by linarith+
qed

lemma frag_addr_A: "s_A_idx pad buf row 0 + r * (BK + int pad) + c = s_A_idx pad buf (row + r) c"
  by (simp add: s_A_idx_def algebra_simps)

lemma frag_addr_B: "s_B_idx pad buf 0 col + r * (BN + int pad) + c = s_B_idx pad buf r (col + c)"
  by (simp add: s_B_idx_def algebra_simps)

lemma quiet_load_A:
  assumes "quiet pad st buf" "0 \<le> w" "w < 8" "i < 2"
  shows "\<not> list_ex (in_flight st S_A) (frag_addrs (s_A_idx pad buf (frag_row w i) 0) (BK + int pad))"
proof -
  note fb = frag_row_bounds[OF assms(2,3,4)]
  have "\<not> in_flight st S_A x" if "x \<in> set (frag_addrs (s_A_idx pad buf (frag_row w i) 0) (BK + int pad))" for x
  proof -
    from that obtain r c where rc: "0 \<le> r" "r < 16" "0 \<le> c" "c < 16"
      "x = s_A_idx pad buf (frag_row w i) 0 + r * (BK + int pad) + c"
      unfolding set_frag_addrs by blast
    have "0 \<le> frag_row w i + r \<and> frag_row w i + r < BM \<and> 0 \<le> c \<and> c < BK"
      using fb rc by (simp add: tile_defs)
    with assms(1) show ?thesis unfolding rc(5) frag_addr_A quiet_def by blast
  qed
  then show ?thesis by (auto simp: list_ex_iff)
qed

lemma quiet_load_B:
  assumes "quiet pad st buf" "0 \<le> w" "w < 8" "j < 4"
  shows "\<not> list_ex (in_flight st S_B) (frag_addrs (s_B_idx pad buf 0 (frag_col w j)) (BN + int pad))"
proof -
  note fb = frag_col_bounds[OF assms(2,3,4)]
  have "\<not> in_flight st S_B x" if "x \<in> set (frag_addrs (s_B_idx pad buf 0 (frag_col w j)) (BN + int pad))" for x
  proof -
    from that obtain r c where rc: "0 \<le> r" "r < 16" "0 \<le> c" "c < 16"
      "x = s_B_idx pad buf 0 (frag_col w j) + r * (BN + int pad) + c"
      unfolding set_frag_addrs by blast
    have "0 \<le> r \<and> r < BK \<and> 0 \<le> frag_col w j + c \<and> frag_col w j + c < BN"
      using fb rc by (simp add: tile_defs)
    with assms(1) show ?thesis unfolding rc(5) frag_addr_B quiet_def by blast
  qed
  then show ?thesis by (auto simp: list_ex_iff)
qed

lemma loaded_A:
  assumes "holds a b pad st buf k" "0 \<le> w" "w < 8" "i < 2"
  shows "load_matrix_sync (s_A st) (s_A_idx pad buf (frag_row w i) 0) (BK + int pad) = ref_frag_A a b k w i"
  unfolding load_matrix_sync_def ref_frag_A_def frag_addr_A
proof (intro map_cong refl)
  fix r c :: nat assume "r \<in> set [0..<16]" "c \<in> set [0..<16]"
  then have "0 \<le> frag_row w i + int r \<and> frag_row w i + int r < BM \<and> 0 \<le> int c \<and> int c < BK"
    using frag_row_bounds[OF assms(2,3,4)] by (simp add: tile_defs)
  with assms(1) show "s_A st (s_A_idx pad buf (frag_row w i + int r) (int c)) = slice_A a b k (frag_row w i + int r) (int c)"
    unfolding holds_def by blast
qed

lemma loaded_B:
  assumes "holds a b pad st buf k" "0 \<le> w" "w < 8" "j < 4"
  shows "load_matrix_sync (s_B st) (s_B_idx pad buf 0 (frag_col w j)) (BN + int pad) = ref_frag_B a b k w j"
  unfolding load_matrix_sync_def ref_frag_B_def frag_addr_B
proof (intro map_cong refl)
  fix r c :: nat assume "r \<in> set [0..<16]" "c \<in> set [0..<16]"
  then have "0 \<le> int r \<and> int r < BK \<and> 0 \<le> frag_col w j + int c \<and> frag_col w j + int c < BN"
    using frag_col_bounds[OF assms(2,3,4)] by (simp add: tile_defs)
  with assms(1) show "s_B st (s_B_idx pad buf (int r) (frag_col w j + int c)) = slice_B a b k (int r) (frag_col w j + int c)"
    unfolding holds_def by blast
qed

subsection \<open>One instruction, all warps\<close>

lemma exec_load_A:
  assumes ts: "set ts = set block_tids" and q: "quiet pad st buf" and h: "holds a b pad st buf k" and i: "i < 2"
  shows "\<exists>st'. exec hw a b pad ts (Load_matrix_A i buf) st = Some st' \<and> same_mem st st' \<and>
     frag_B st' = frag_B st \<and> frag_C st' = frag_C st \<and>
     (\<forall>w. 0 \<le> w \<and> w < 8 \<longrightarrow> frag_A st' (w, i) = ref_frag_A a b k w i) \<and>
     (\<forall>key. snd key \<noteq> i \<longrightarrow> frag_A st' key = frag_A st key)"
proof -
  have sw: "set (warps ts) = {0..<8}" by (rule set_warps[OF ts])
  have "\<forall>w\<in>set (warps ts). \<not> list_ex (in_flight st S_A) (frag_addrs (s_A_idx pad buf (frag_row w i) 0) (BK + int pad))"
    unfolding sw using quiet_load_A[OF q _ _ i] by simp
  from for_each_load_A[OF this] obtain st' where
    st': "for_each (load_A pad i buf) (warps ts) st = Some st'" "same_mem st st'"
      "frag_B st' = frag_B st" "frag_C st' = frag_C st"
      "\<forall>key. frag_A st' key =
        (if fst key \<in> set (warps ts) \<and> snd key = i
         then load_matrix_sync (s_A st) (s_A_idx pad buf (frag_row (fst key) i) 0) (BK + int pad)
         else frag_A st key)"
    by blast
  have "frag_A st' (w, i) = ref_frag_A a b k w i" if "0 \<le> w \<and> w < 8" for w
    using st'(5) that loaded_A[OF h _ _ i, of w] by (simp add: sw)
  moreover have "frag_A st' key = frag_A st key" if "snd key \<noteq> i" for key
    using spec[OF st'(5), of key] that by simp
  moreover have "exec hw a b pad ts (Load_matrix_A i buf) st = Some st'" using st'(1) by simp
  ultimately show ?thesis using st'(2,3,4) by blast
qed

lemma exec_load_B:
  assumes ts: "set ts = set block_tids" and q: "quiet pad st buf" and h: "holds a b pad st buf k" and j: "j < 4"
  shows "\<exists>st'. exec hw a b pad ts (Load_matrix_B j buf) st = Some st' \<and> same_mem st st' \<and>
     frag_A st' = frag_A st \<and> frag_C st' = frag_C st \<and>
     (\<forall>w. 0 \<le> w \<and> w < 8 \<longrightarrow> frag_B st' (w, j) = ref_frag_B a b k w j) \<and>
     (\<forall>key. snd key \<noteq> j \<longrightarrow> frag_B st' key = frag_B st key)"
proof -
  have sw: "set (warps ts) = {0..<8}" by (rule set_warps[OF ts])
  have "\<forall>w\<in>set (warps ts). \<not> list_ex (in_flight st S_B) (frag_addrs (s_B_idx pad buf 0 (frag_col w j)) (BN + int pad))"
    unfolding sw using quiet_load_B[OF q _ _ j] by simp
  from for_each_load_B[OF this] obtain st' where
    st': "for_each (load_B pad j buf) (warps ts) st = Some st'" "same_mem st st'"
      "frag_A st' = frag_A st" "frag_C st' = frag_C st"
      "\<forall>key. frag_B st' key =
        (if fst key \<in> set (warps ts) \<and> snd key = j
         then load_matrix_sync (s_B st) (s_B_idx pad buf 0 (frag_col (fst key) j)) (BN + int pad)
         else frag_B st key)"
    by blast
  have "frag_B st' (w, j) = ref_frag_B a b k w j" if "0 \<le> w \<and> w < 8" for w
    using st'(5) that loaded_B[OF h _ _ j, of w] by (simp add: sw)
  moreover have "frag_B st' key = frag_B st key" if "snd key \<noteq> j" for key
    using spec[OF st'(5), of key] that by simp
  moreover have "exec hw a b pad ts (Load_matrix_B j buf) st = Some st'" using st'(1) by simp
  ultimately show ?thesis using st'(2,3,4) by blast
qed

lemma exec_mma:
  assumes ts: "set ts = set block_tids"
  shows "\<exists>st'. exec hw a b pad ts (Mma_sync i j) st = Some st' \<and> same_mem st st' \<and>
     frag_A st' = frag_A st \<and> frag_B st' = frag_B st \<and>
     (\<forall>w. 0 \<le> w \<and> w < 8 \<longrightarrow>
        frag_C st' (w, i, j) = mma_sync hw (frag_A st (w, i)) (frag_B st (w, j)) (frag_C st (w, i, j))) \<and>
     (\<forall>key. snd key \<noteq> (i, j) \<longrightarrow> frag_C st' key = frag_C st key)"
proof -
  have sw: "set (warps ts) = {0..<8}" by (rule set_warps[OF ts])
  from for_each_mma[OF distinct_warps, of hw i j ts st] obtain st' where
    st': "for_each (mma hw i j) (warps ts) st = Some st'" "same_mem st st'"
      "frag_A st' = frag_A st" "frag_B st' = frag_B st"
      "\<forall>key. frag_C st' key =
        (if fst key \<in> set (warps ts) \<and> snd key = (i, j)
         then mma_sync hw (frag_A st (fst key, i)) (frag_B st (fst key, j)) (frag_C st key)
         else frag_C st key)"
    by blast
  have "frag_C st' (w, i, j) = mma_sync hw (frag_A st (w, i)) (frag_B st (w, j)) (frag_C st (w, i, j))"
    if "0 \<le> w \<and> w < 8" for w
    using st'(5) that by (simp add: sw)
  moreover have "frag_C st' key = frag_C st key" if "snd key \<noteq> (i, j)" for key
    using spec[OF st'(5), of key] that by simp
  moreover have "exec hw a b pad ts (Mma_sync i j) st = Some st'" using st'(1) by simp
  ultimately show ?thesis using st'(2,3,4) by blast
qed

lemma exec_fill:
  assumes ts: "set ts = set block_tids"
  shows "\<exists>st'. exec hw a b pad ts (Fill_fragment i j) st = Some st' \<and> same_mem st st' \<and>
     (\<forall>w. 0 \<le> w \<and> w < 8 \<longrightarrow> frag_C st' (w, i, j) = fill_fragment (half_zero hw)) \<and>
     (\<forall>key. snd key \<noteq> (i, j) \<longrightarrow> frag_C st' key = frag_C st key)"
proof -
  have sw: "set (warps ts) = {0..<8}" by (rule set_warps[OF ts])
  from for_each_fill[of i j "fill_fragment (half_zero hw)" "warps ts" st] obtain st' where
    st': "for_each (\<lambda>w s. Some (s\<lparr>frag_C := (frag_C s)((w, i, j) := fill_fragment (half_zero hw))\<rparr>)) (warps ts) st = Some st'"
      "same_mem st st'"
      "\<forall>key. frag_C st' key = (if fst key \<in> set (warps ts) \<and> snd key = (i, j) then fill_fragment (half_zero hw) else frag_C st key)"
    by blast
  have "frag_C st' (w, i, j) = fill_fragment (half_zero hw)" if "0 \<le> w \<and> w < 8" for w
    using st'(3) that by (simp add: sw)
  moreover have "frag_C st' key = frag_C st key" if "snd key \<noteq> (i, j)" for key
    using spec[OF st'(3), of key] that by simp
  moreover have "exec hw a b pad ts (Fill_fragment i j) st = Some st'" using st'(1) by simp
  ultimately show ?thesis using st'(2) by blast
qed

subsection \<open>Instruction lists\<close>

lemma run_load_A_list:
  assumes sch: "\<forall>pc. set (thread_order hw b pc) = set block_tids"
    and h: "holds a b pad st buf k"
  shows "quiet pad st buf \<Longrightarrow> \<forall>i\<in>set is. i < 2 \<Longrightarrow>
     \<exists>st'. run hw a b pad pc (map (\<lambda>i. Load_matrix_A i buf) is) st = Some st' \<and> same_mem st st' \<and>
       frag_B st' = frag_B st \<and> frag_C st' = frag_C st \<and>
       (\<forall>w i. 0 \<le> w \<and> w < 8 \<and> i \<in> set is \<longrightarrow> frag_A st' (w, i) = ref_frag_A a b k w i) \<and>
       (\<forall>key. snd key \<notin> set is \<longrightarrow> frag_A st' key = frag_A st key)"
  using h
proof (induction "is" arbitrary: pc st)
  case Nil
  show ?case by (simp add: same_mem_refl)
next
  case (Cons i0 "is")
  have i0: "i0 < 2" using Cons.prems(2) by simp
  from exec_load_A[OF sch[rule_format, of pc] Cons.prems(1) Cons.prems(3) i0, where hw=hw]
  obtain st1 where s1: "exec hw a b pad (thread_order hw b pc) (Load_matrix_A i0 buf) st = Some st1"
    "same_mem st st1" "frag_B st1 = frag_B st" "frag_C st1 = frag_C st"
    "\<forall>w. 0 \<le> w \<and> w < 8 \<longrightarrow> frag_A st1 (w, i0) = ref_frag_A a b k w i0"
    "\<forall>key. snd key \<noteq> i0 \<longrightarrow> frag_A st1 key = frag_A st key"
    by blast
  have q1: "quiet pad st1 buf" using same_mem_quiet[OF s1(2)] Cons.prems(1) by simp
  have h1: "holds a b pad st1 buf k" using same_mem_holds[OF s1(2)] Cons.prems(3) by simp
  have r: "\<forall>i\<in>set is. i < 2" using Cons.prems(2) by simp
  from Cons.IH[OF q1 r h1, of "Suc pc"]
  obtain st' where s2: "run hw a b pad (Suc pc) (map (\<lambda>i. Load_matrix_A i buf) is) st1 = Some st'"
    "same_mem st1 st'" "frag_B st' = frag_B st1" "frag_C st' = frag_C st1"
    "\<forall>w i. 0 \<le> w \<and> w < 8 \<and> i \<in> set is \<longrightarrow> frag_A st' (w, i) = ref_frag_A a b k w i"
    "\<forall>key. snd key \<notin> set is \<longrightarrow> frag_A st' key = frag_A st1 key"
    by blast
  have 1: "run hw a b pad pc (map (\<lambda>i. Load_matrix_A i buf) (i0 # is)) st = Some st'"
    using s1(1) s2(1) by simp
  have 2: "same_mem st st'" by (rule same_mem_trans[OF s1(2) s2(2)])
  have 3: "frag_A st' (w, i) = ref_frag_A a b k w i" if "0 \<le> w \<and> w < 8 \<and> i \<in> set (i0 # is)" for w i
  proof (cases "i \<in> set is")
    case True then show ?thesis using s2(5) that by blast
  next
    case False
    then have "i = i0" using that by simp
    moreover have "frag_A st' (w, i) = frag_A st1 (w, i)" using s2(6) False by simp
    ultimately show ?thesis using s1(5) that by simp
  qed
  have 4: "frag_A st' key = frag_A st key" if "snd key \<notin> set (i0 # is)" for key
    using spec[OF s2(6), of key] spec[OF s1(6), of key] that by simp
  from 1 2 3 4 s1(3,4) s2(3,4) show ?case by (metis (no_types, lifting))
qed

lemma run_load_B_list:
  assumes sch: "\<forall>pc. set (thread_order hw b pc) = set block_tids"
    and h: "holds a b pad st buf k"
  shows "quiet pad st buf \<Longrightarrow> \<forall>j\<in>set js. j < 4 \<Longrightarrow>
     \<exists>st'. run hw a b pad pc (map (\<lambda>j. Load_matrix_B j buf) js) st = Some st' \<and> same_mem st st' \<and>
       frag_A st' = frag_A st \<and> frag_C st' = frag_C st \<and>
       (\<forall>w j. 0 \<le> w \<and> w < 8 \<and> j \<in> set js \<longrightarrow> frag_B st' (w, j) = ref_frag_B a b k w j) \<and>
       (\<forall>key. snd key \<notin> set js \<longrightarrow> frag_B st' key = frag_B st key)"
  using h
proof (induction js arbitrary: pc st)
  case Nil
  show ?case by (simp add: same_mem_refl)
next
  case (Cons j0 js)
  have j0: "j0 < 4" using Cons.prems(2) by simp
  from exec_load_B[OF sch[rule_format, of pc] Cons.prems(1) Cons.prems(3) j0, where hw=hw]
  obtain st1 where s1: "exec hw a b pad (thread_order hw b pc) (Load_matrix_B j0 buf) st = Some st1"
    "same_mem st st1" "frag_A st1 = frag_A st" "frag_C st1 = frag_C st"
    "\<forall>w. 0 \<le> w \<and> w < 8 \<longrightarrow> frag_B st1 (w, j0) = ref_frag_B a b k w j0"
    "\<forall>key. snd key \<noteq> j0 \<longrightarrow> frag_B st1 key = frag_B st key"
    by blast
  have q1: "quiet pad st1 buf" using same_mem_quiet[OF s1(2)] Cons.prems(1) by simp
  have h1: "holds a b pad st1 buf k" using same_mem_holds[OF s1(2)] Cons.prems(3) by simp
  have r: "\<forall>j\<in>set js. j < 4" using Cons.prems(2) by simp
  from Cons.IH[OF q1 r h1, of "Suc pc"]
  obtain st' where s2: "run hw a b pad (Suc pc) (map (\<lambda>j. Load_matrix_B j buf) js) st1 = Some st'"
    "same_mem st1 st'" "frag_A st' = frag_A st1" "frag_C st' = frag_C st1"
    "\<forall>w j. 0 \<le> w \<and> w < 8 \<and> j \<in> set js \<longrightarrow> frag_B st' (w, j) = ref_frag_B a b k w j"
    "\<forall>key. snd key \<notin> set js \<longrightarrow> frag_B st' key = frag_B st1 key"
    by blast
  have 1: "run hw a b pad pc (map (\<lambda>j. Load_matrix_B j buf) (j0 # js)) st = Some st'"
    using s1(1) s2(1) by simp
  have 2: "same_mem st st'" by (rule same_mem_trans[OF s1(2) s2(2)])
  have 3: "frag_B st' (w, j) = ref_frag_B a b k w j" if "0 \<le> w \<and> w < 8 \<and> j \<in> set (j0 # js)" for w j
  proof (cases "j \<in> set js")
    case True then show ?thesis using s2(5) that by blast
  next
    case False
    then have "j = j0" using that by simp
    moreover have "frag_B st' (w, j) = frag_B st1 (w, j)" using s2(6) False by simp
    ultimately show ?thesis using s1(5) that by simp
  qed
  have 4: "frag_B st' key = frag_B st key" if "snd key \<notin> set (j0 # js)" for key
    using spec[OF s2(6), of key] spec[OF s1(6), of key] that by simp
  from 1 2 3 4 s1(3,4) s2(3,4) show ?case by (metis (no_types, lifting))
qed

lemma run_mma_list:
  assumes sch: "\<forall>pc. set (thread_order hw b pc) = set block_tids"
  shows "distinct ps \<Longrightarrow>
     \<exists>st'. run hw a b pad pc (map (\<lambda>p. Mma_sync (fst p) (snd p)) ps) st = Some st' \<and> same_mem st st' \<and>
       frag_A st' = frag_A st \<and> frag_B st' = frag_B st \<and>
       (\<forall>w p. 0 \<le> w \<and> w < 8 \<and> p \<in> set ps \<longrightarrow>
          frag_C st' (w, p) = mma_sync hw (frag_A st (w, fst p)) (frag_B st (w, snd p)) (frag_C st (w, p))) \<and>
       (\<forall>key. snd key \<notin> set ps \<longrightarrow> frag_C st' key = frag_C st key)"
proof (induction ps arbitrary: pc st)
  case Nil
  show ?case by (simp add: same_mem_refl)
next
  case (Cons p0 ps)
  obtain i0 j0 where p0: "p0 = (i0, j0)" by (cases p0)
  from exec_mma[OF sch[rule_format, of pc], where hw=hw and a=a and pad=pad and i=i0 and j=j0 and st=st]
  obtain st1 where s1: "exec hw a b pad (thread_order hw b pc) (Mma_sync i0 j0) st = Some st1"
    "same_mem st st1" "frag_A st1 = frag_A st" "frag_B st1 = frag_B st"
    "\<forall>w. 0 \<le> w \<and> w < 8 \<longrightarrow>
        frag_C st1 (w, i0, j0) = mma_sync hw (frag_A st (w, i0)) (frag_B st (w, j0)) (frag_C st (w, i0, j0))"
    "\<forall>key. snd key \<noteq> (i0, j0) \<longrightarrow> frag_C st1 key = frag_C st key"
    by blast
  have d: "distinct ps" "p0 \<notin> set ps" using Cons.prems by simp_all
  from Cons.IH[OF d(1), of "Suc pc" st1]
  obtain st' where s2: "run hw a b pad (Suc pc) (map (\<lambda>p. Mma_sync (fst p) (snd p)) ps) st1 = Some st'"
    "same_mem st1 st'" "frag_A st' = frag_A st1" "frag_B st' = frag_B st1"
    "\<forall>w p. 0 \<le> w \<and> w < 8 \<and> p \<in> set ps \<longrightarrow>
        frag_C st' (w, p) = mma_sync hw (frag_A st1 (w, fst p)) (frag_B st1 (w, snd p)) (frag_C st1 (w, p))"
    "\<forall>key. snd key \<notin> set ps \<longrightarrow> frag_C st' key = frag_C st1 key"
    by blast
  have 1: "run hw a b pad pc (map (\<lambda>p. Mma_sync (fst p) (snd p)) (p0 # ps)) st = Some st'"
    using s1(1) s2(1) by (simp add: p0)
  have 2: "same_mem st st'" by (rule same_mem_trans[OF s1(2) s2(2)])
  have 3: "frag_C st' (w, p) = mma_sync hw (frag_A st (w, fst p)) (frag_B st (w, snd p)) (frag_C st (w, p))"
    if "0 \<le> w \<and> w < 8 \<and> p \<in> set (p0 # ps)" for w p
  proof (cases "p \<in> set ps")
    case True
    then have "p \<noteq> (i0, j0)" using d(2) p0 by auto
    then have "frag_C st1 (w, p) = frag_C st (w, p)" using spec[OF s1(6), of "(w, p)"] by simp
    moreover have "frag_C st' (w, p) = mma_sync hw (frag_A st1 (w, fst p)) (frag_B st1 (w, snd p)) (frag_C st1 (w, p))"
      using s2(5) True that by blast
    ultimately show ?thesis by (simp add: s1(3,4))
  next
    case False
    then have e: "p = (i0, j0)" using that p0 by simp
    have "frag_C st' (w, p) = frag_C st1 (w, p)" using spec[OF s2(6), of "(w, p)"] False by simp
    then show ?thesis using s1(5) that unfolding e by simp
  qed
  have 4: "frag_C st' key = frag_C st key" if "snd key \<notin> set (p0 # ps)" for key
    using spec[OF s2(6), of key] spec[OF s1(6), of key] that by (simp add: p0)
  have 5: "frag_A st' = frag_A st" "frag_B st' = frag_B st" by (simp_all add: s1 s2)
  from 1 2 3 4 5 show ?case by (metis (no_types, lifting))
qed

lemma run_fill_list:
  assumes sch: "\<forall>pc. set (thread_order hw b pc) = set block_tids"
  shows "\<exists>st'. run hw a b pad pc (map (\<lambda>p. Fill_fragment (fst p) (snd p)) ps) st = Some st' \<and> same_mem st st' \<and>
       (\<forall>w p. 0 \<le> w \<and> w < 8 \<and> p \<in> set ps \<longrightarrow> frag_C st' (w, p) = fill_fragment (half_zero hw)) \<and>
       (\<forall>key. snd key \<notin> set ps \<longrightarrow> frag_C st' key = frag_C st key)"
proof (induction ps arbitrary: pc st)
  case Nil
  show ?case by (simp add: same_mem_refl)
next
  case (Cons p0 ps)
  obtain i0 j0 where p0: "p0 = (i0, j0)" by (cases p0)
  from exec_fill[OF sch[rule_format, of pc], where hw=hw and a=a and pad=pad and i=i0 and j=j0 and st=st]
  obtain st1 where s1: "exec hw a b pad (thread_order hw b pc) (Fill_fragment i0 j0) st = Some st1"
    "same_mem st st1"
    "\<forall>w. 0 \<le> w \<and> w < 8 \<longrightarrow> frag_C st1 (w, i0, j0) = fill_fragment (half_zero hw)"
    "\<forall>key. snd key \<noteq> (i0, j0) \<longrightarrow> frag_C st1 key = frag_C st key"
    by blast
  from Cons.IH[of "Suc pc" st1]
  obtain st' where s2: "run hw a b pad (Suc pc) (map (\<lambda>p. Fill_fragment (fst p) (snd p)) ps) st1 = Some st'"
    "same_mem st1 st'"
    "\<forall>w p. 0 \<le> w \<and> w < 8 \<and> p \<in> set ps \<longrightarrow> frag_C st' (w, p) = fill_fragment (half_zero hw)"
    "\<forall>key. snd key \<notin> set ps \<longrightarrow> frag_C st' key = frag_C st1 key"
    by blast
  have 1: "run hw a b pad pc (map (\<lambda>p. Fill_fragment (fst p) (snd p)) (p0 # ps)) st = Some st'"
    using s1(1) s2(1) by (simp add: p0)
  have 2: "same_mem st st'" by (rule same_mem_trans[OF s1(2) s2(2)])
  have 3: "frag_C st' (w, p) = fill_fragment (half_zero hw)"
    if "0 \<le> w \<and> w < 8 \<and> p \<in> set (p0 # ps)" for w p
  proof (cases "p \<in> set ps")
    case True then show ?thesis using s2(3) that by blast
  next
    case False
    then have e: "p = (i0, j0)" using that p0 by simp
    have "frag_C st' (w, p) = frag_C st1 (w, p)" using spec[OF s2(4), of "(w, p)"] False by simp
    then show ?thesis using s1(3) that unfolding e by simp
  qed
  have 4: "frag_C st' key = frag_C st key" if "snd key \<notin> set (p0 # ps)" for key
    using spec[OF s2(4), of key] spec[OF s1(4), of key] that by (simp add: p0)
  from 1 2 3 4 show ?case by (metis (no_types, lifting))
qed

lemma set_tile_pairs: "p \<in> set tile_pairs \<longleftrightarrow> fst p < 2 \<and> snd p < 4"
  by (cases p) (simp add: tile_pairs_def)

lemma distinct_tile_pairs: "distinct tile_pairs"
  by (simp add: tile_pairs_def distinct_product)

lemma concat_map_product:
  "concat (map (\<lambda>i. map (\<lambda>j. f i j) ys) xs) = map (\<lambda>p. f (fst p) (snd p)) (List.product xs ys)"
  by (induction xs) (simp_all add: comp_def)

lemma mma_ops_pairs: "mma_ops = map (\<lambda>p. Mma_sync (fst p) (snd p)) tile_pairs"
  by (simp add: mma_ops_def tile_pairs_def concat_map_product tile_defs del: upt_Suc)

lemma fill_ops_pairs: "fill_ops = map (\<lambda>p. Fill_fragment (fst p) (snd p)) tile_pairs"
  by (simp add: fill_ops_def tile_pairs_def concat_map_product tile_defs del: upt_Suc)

lemma store_ops_pairs: "store_ops = map (\<lambda>p. Store_matrix (fst p) (snd p)) tile_pairs"
  by (simp add: store_ops_def tile_pairs_def concat_map_product tile_defs del: upt_Suc)

lemma compute_phase:
  assumes sch: "\<forall>pc. set (thread_order hw b pc) = set block_tids"
    and q: "quiet pad st buf" and h: "holds a b pad st buf k"
  shows "\<exists>st'. run hw a b pad pc (compute_ops buf) st = Some st' \<and> same_mem st st' \<and>
     (\<forall>w i j. 0 \<le> w \<and> w < 8 \<and> i < 2 \<and> j < 4 \<longrightarrow>
        frag_C st' (w, i, j) = mma_sync hw (ref_frag_A a b k w i) (ref_frag_B a b k w j) (frag_C st (w, i, j)))"
proof -
  from run_load_A_list[OF sch h q, where ?is="[0..<2]" and pc=pc]
  obtain st1 where s1: "run hw a b pad pc (map (\<lambda>i. Load_matrix_A i buf) [0..<2]) st = Some st1"
    "same_mem st st1" "frag_C st1 = frag_C st"
    "\<forall>w i. 0 \<le> w \<and> w < 8 \<and> i \<in> set [0..<2] \<longrightarrow> frag_A st1 (w, i) = ref_frag_A a b k w i"
    by auto
  have q1: "quiet pad st1 buf" using same_mem_quiet[OF s1(2)] q by simp
  have h1: "holds a b pad st1 buf k" using same_mem_holds[OF s1(2)] h by simp
  from run_load_B_list[OF sch h1 q1, where js="[0..<4]" and pc="pc + 2"]
  obtain st2 where s2: "run hw a b pad (pc + 2) (map (\<lambda>j. Load_matrix_B j buf) [0..<4]) st1 = Some st2"
    "same_mem st1 st2" "frag_A st2 = frag_A st1" "frag_C st2 = frag_C st1"
    "\<forall>w j. 0 \<le> w \<and> w < 8 \<and> j \<in> set [0..<4] \<longrightarrow> frag_B st2 (w, j) = ref_frag_B a b k w j"
    by auto
  from run_mma_list[OF sch distinct_tile_pairs, where a=a and pad=pad and pc="pc + 6" and st=st2]
  obtain st' where s3: "run hw a b pad (pc + 6) (map (\<lambda>p. Mma_sync (fst p) (snd p)) tile_pairs) st2 = Some st'"
    "same_mem st2 st'"
    "\<forall>w p. 0 \<le> w \<and> w < 8 \<and> p \<in> set tile_pairs \<longrightarrow>
        frag_C st' (w, p) = mma_sync hw (frag_A st2 (w, fst p)) (frag_B st2 (w, snd p)) (frag_C st2 (w, p))"
    by blast
  have e: "compute_ops buf = map (\<lambda>i. Load_matrix_A i buf) [0..<2] @
      (map (\<lambda>j. Load_matrix_B j buf) [0..<4] @ map (\<lambda>p. Mma_sync (fst p) (snd p)) tile_pairs)"
    by (simp add: compute_ops_def load_ops_def mma_ops_pairs tile_defs del: upt_Suc)
  have 1: "run hw a b pad pc (compute_ops buf) st = Some st'"
    unfolding e run_append using s1(1) s2(1) s3(1) by (simp add: ac_simps del: upt_Suc)
  have 2: "same_mem st st'" by (rule same_mem_trans[OF same_mem_trans[OF s1(2) s2(2)] s3(2)])
  have 3: "frag_C st' (w, i, j) = mma_sync hw (ref_frag_A a b k w i) (ref_frag_B a b k w j) (frag_C st (w, i, j))"
    if "0 \<le> w \<and> w < 8 \<and> i < 2 \<and> j < 4" for w i j
  proof -
    have "(i, j) \<in> set tile_pairs" using that by (simp add: set_tile_pairs)
    then have "frag_C st' (w, i, j) = mma_sync hw (frag_A st2 (w, i)) (frag_B st2 (w, j)) (frag_C st2 (w, i, j))"
      using s3(3) that by fastforce
    moreover have "frag_A st2 (w, i) = ref_frag_A a b k w i" using s1(4) that by (simp add: s2(3))
    moreover have "frag_B st2 (w, j) = ref_frag_B a b k w j" using s2(5) that by simp
    ultimately show ?thesis by (simp add: s2(4) s1(3))
  qed
  from 1 2 3 show ?thesis by blast
qed

subsection \<open>The reduction loops\<close>

lemma acc_ref_Suc:
  "acc_ref hw a b w i j (Suc n) =
     mma_sync hw (ref_frag_A a b (int n) w i) (ref_frag_B a b (int n) w j) (acc_ref hw a b w i j n)"
  by (simp add: acc_ref_def)

lemma accumulated_step:
  assumes "accumulated hw a b st (nat k)" "0 \<le> k"
    "\<forall>w i j. 0 \<le> w \<and> w < 8 \<and> i < 2 \<and> j < 4 \<longrightarrow>
       frag_C st' (w, i, j) = mma_sync hw (ref_frag_A a b k w i) (ref_frag_B a b k w j) (frag_C st (w, i, j))"
  shows "accumulated hw a b st' (nat (k + 1))"
proof -
  have e: "nat (k + 1) = Suc (nat k)" "int (nat k) = k" using assms(2) by simp_all
  show ?thesis unfolding e(1) accumulated_def acc_ref_Suc e(2)
    using assms(1,3) unfolding accumulated_def by simp
qed

lemma quiet_empty: "cp_open st = [] \<Longrightarrow> cp_groups st = [] \<Longrightarrow> quiet pad st buf"
  by (simp add: quiet_def in_flight_def)

lemma run_prologue:
  assumes sch: "\<forall>pc. set (thread_order hw b pc) = set block_tids" and ok: "setup_ok b"
  shows "\<exists>st'. run hw a b pad pc (Thread_setup # fill_ops) st = Some st' \<and> same_mem st st' \<and>
           accumulated hw a b st' 0"
proof -
  have 1: "exec hw a b pad (thread_order hw b pc) Thread_setup st = Some st"
    using exec_setup[OF sch[rule_format, of pc], where b=b and st=st and hw=hw and a=a and pad=pad] ok by simp
  from run_fill_list[OF sch, where a=a and pad=pad and pc="Suc pc" and ps=tile_pairs and st=st]
  obtain st' where s: "run hw a b pad (Suc pc) fill_ops st = Some st'" "same_mem st st'"
    "\<forall>w p. 0 \<le> w \<and> w < 8 \<and> p \<in> set tile_pairs \<longrightarrow> frag_C st' (w, p) = fill_fragment (half_zero hw)"
    unfolding fill_ops_pairs by blast
  have "accumulated hw a b st' 0"
    unfolding accumulated_def using s(3) by (simp add: set_tile_pairs acc_ref_def)
  with 1 s(1,2) show ?thesis by simp
qed

lemma run_prologue_fails:
  assumes sch: "\<forall>pc. set (thread_order hw b pc) = set block_tids" and ok: "\<not> setup_ok b"
  shows "run hw a b pad pc (Thread_setup # xs) st = None"
  using exec_setup[OF sch[rule_format, of pc], where b=b and st=st and hw=hw and a=a and pad=pad] ok by simp

lemma run_sync_body:
  assumes sch: "\<forall>pc. set (thread_order hw b pc) = set block_tids"
    and k: "0 \<le> k" and ok: "slice_ok a b k"
    and e: "cp_open st = []" "cp_groups st = []"
    and acc: "accumulated hw a b st (nat k)"
  shows "\<exists>st'. run hw a b pad pc (sync_body k) st = Some st' \<and> cp_open st' = [] \<and>
     cp_groups st' = [] \<and> g_C st' = g_C st \<and> accumulated hw a b st' (nat (k + 1))"
proof -
  define st1 where "st1 = foldl complete_cp st (staged_copies a b pad 0 k (thread_order hw b pc))"
  have x1: "exec hw a b pad (thread_order hw b pc) (Ldst128 k) st = Some st1"
    unfolding st1_def by (rule exec_ldst[OF ok sch[rule_format]])
  have f1: "cp_open st1 = []" "cp_groups st1 = []" "g_C st1 = g_C st" "frag_C st1 = frag_C st"
    by (simp_all add: st1_def foldl_complete_fields foldl_complete_frag_C e)
  have h1: "holds a b pad st1 0 k"
    unfolding st1_def by (rule staged_holds[OF ok sch[rule_format]]) simp
  have q1: "quiet pad st1 0" by (rule quiet_empty[OF f1(1,2)])
  from compute_phase[OF sch q1 h1, where pc="Suc (Suc pc)"]
  obtain st2 where s2: "run hw a b pad (Suc (Suc pc)) (compute_ops 0) st1 = Some st2" "same_mem st1 st2"
    "\<forall>w i j. 0 \<le> w \<and> w < 8 \<and> i < 2 \<and> j < 4 \<longrightarrow>
        frag_C st2 (w, i, j) = mma_sync hw (ref_frag_A a b k w i) (ref_frag_B a b k w j) (frag_C st1 (w, i, j))"
    by blast
  have r: "run hw a b pad pc (sync_body k) st = Some st2"
    using x1 s2(1) by (simp add: sync_body_def run_append)
  have a2: "accumulated hw a b st2 (nat (k + 1))"
    by (rule accumulated_step[OF acc k]) (use s2(3) f1(4) in simp)
  from s2(2) f1 have "cp_open st2 = []" "cp_groups st2 = []" "g_C st2 = g_C st"
    by (simp_all add: same_mem_def)
  with r a2 show ?thesis by simp
qed

lemma run_sync_loop:
  assumes sch: "\<forall>pc. set (thread_order hw b pc) = set block_tids"
    and ok: "\<forall>k. 0 \<le> k \<and> k < K sdiv WMMA_SIZE_K \<longrightarrow> slice_ok a b k"
  shows "0 \<le> idx \<Longrightarrow> cp_open st = [] \<Longrightarrow> cp_groups st = [] \<Longrightarrow> accumulated hw a b st (nat idx) \<Longrightarrow>
     \<exists>st'. run hw a b pad pc (sync_loop K idx) st = Some st' \<and> cp_open st' = [] \<and>
       cp_groups st' = [] \<and> g_C st' = g_C st \<and>
       accumulated hw a b st' (nat (max idx (K sdiv WMMA_SIZE_K)))"
proof (induction "nat (K sdiv WMMA_SIZE_K - idx)" arbitrary: idx pc st)
  case 0
  then have "\<not> idx < K sdiv WMMA_SIZE_K" by simp
  then have "sync_loop K idx = []" "max idx (K sdiv WMMA_SIZE_K) = idx"
    by (simp_all add: sync_loop.simps[of K idx])
  with 0 show ?case by simp
next
  case (Suc n)
  then have lt: "idx < K sdiv WMMA_SIZE_K" by simp
  then have l: "sync_loop K idx = sync_body idx @ sync_loop K (idx + 1)"
    by (simp add: sync_loop.simps[of K idx])
  have oki: "slice_ok a b idx" using ok lt Suc.prems(1) by simp
  from run_sync_body[OF sch Suc.prems(1) oki Suc.prems(2,3,4), where pad=pad and pc=pc]
  obtain st1 where s1: "run hw a b pad pc (sync_body idx) st = Some st1" "cp_open st1 = []"
    "cp_groups st1 = []" "g_C st1 = g_C st" "accumulated hw a b st1 (nat (idx + 1))"
    by blast
  have n: "n = nat (K sdiv WMMA_SIZE_K - (idx + 1))" using Suc.hyps(2) by simp
  have i1: "0 \<le> idx + 1" using Suc.prems(1) by simp
  from Suc.hyps(1)[OF n i1 s1(2,3,5), of "pc + length (sync_body idx)"]
  obtain st' where s2: "run hw a b pad (pc + length (sync_body idx)) (sync_loop K (idx + 1)) st1 = Some st'"
    "cp_open st' = []" "cp_groups st' = []" "g_C st' = g_C st1"
    "accumulated hw a b st' (nat (max (idx + 1) (K sdiv WMMA_SIZE_K)))"
    by blast
  have m: "max (idx + 1) (K sdiv WMMA_SIZE_K) = max idx (K sdiv WMMA_SIZE_K)" using lt by simp
  have "run hw a b pad pc (sync_loop K idx) st = Some st'"
    unfolding l run_append using s1(1) s2(1) by simp
  with s2 s1(4) m show ?case by simp
qed

lemma bufs: fixes x :: int
  shows "x AND 1 = 0 \<or> x AND 1 = 1" "(x - 1) AND 1 \<noteq> x AND 1"
proof -
  have e: "x AND 1 = x mod 2" "(x - 1) AND 1 = (x - 1) mod 2" by (simp_all add: and_one_eq)
  show "x AND 1 = 0 \<or> x AND 1 = 1" unfolding e by presburger
  show "(x - 1) AND 1 \<noteq> x AND 1" unfolding e by presburger
qed

lemma run_async_body:
  assumes sch: "\<forall>pc. set (thread_order hw b pc) = set block_tids"
    and i1: "1 \<le> idx" and ok: "slice_ok a b idx"
    and h: "holds a b pad st ((idx - 1) AND 1) (idx - 1)"
    and e: "cp_open st = []" "cp_groups st = []"
    and acc: "accumulated hw a b st (nat (idx - 1))"
  shows "\<exists>st'. run hw a b pad pc (async_body idx) st = Some st' \<and> holds a b pad st' (idx AND 1) idx \<and>
     cp_open st' = [] \<and> cp_groups st' = [] \<and> g_C st' = g_C st \<and> accumulated hw a b st' (nat idx)"
proof -
  define cur where "cur = (idx - 1) AND 1"
  define nxt where "nxt = idx AND 1"
  have bf: "cur = 0 \<or> cur = 1" "nxt = 0 \<or> nxt = 1" "cur \<noteq> nxt"
    unfolding cur_def nxt_def using bufs(1)[of "idx - 1"] bufs(1)[of idx] bufs(2)[of idx] by blast+
  define cs where "cs = staged_copies a b pad nxt idx (thread_order hw b pc)"
  define st1 where "st1 = st\<lparr>cp_open := cs\<rparr>"
  have ts: "set (thread_order hw b pc) = set block_tids" using sch by simp
  have sub: "set (thread_order hw b pc) \<subseteq> set block_tids" using ts by simp
  have x1: "exec hw a b pad (thread_order hw b pc) (Cp_async nxt idx) st = Some st1"
    using exec_cp_async[OF ok ts, where hw=hw and pad=pad and buf=nxt and st=st] e by (simp add: st1_def cs_def)
  have q1: "quiet pad st1 cur"
    unfolding quiet_def in_flight_def
    using staged_other_buffer[OF ok sub bf(2) bf(1) bf(3), of _ _ pad, folded cs_def]
    by (simp add: st1_def e list_ex_iff tile_defs)
  have h1: "holds a b pad st1 cur (idx - 1)" using h by (simp add: holds_def st1_def cur_def)
  from compute_phase[OF sch q1 h1, where pc="Suc pc"]
  obtain st2 where s2: "run hw a b pad (Suc pc) (compute_ops cur) st1 = Some st2" "same_mem st1 st2"
    "\<forall>w i j. 0 \<le> w \<and> w < 8 \<and> i < 2 \<and> j < 4 \<longrightarrow>
        frag_C st2 (w, i, j) =
          mma_sync hw (ref_frag_A a b (idx - 1) w i) (ref_frag_B a b (idx - 1) w j) (frag_C st1 (w, i, j))"
    by blast
  have f2: "cp_open st2 = cs" "cp_groups st2 = []" "g_C st2 = g_C st"
    using s2(2) by (simp_all add: same_mem_def st1_def e)
  define st3 where "st3 = foldl complete_cp (st2\<lparr>cp_open := [], cp_groups := []\<rparr>) cs"
  have tail: "run hw a b pad pc' [Cp_async_commit_group, Cp_async_wait_group 0, Syncthreads] st2 = Some st3" for pc'
    by (simp add: f2 st3_def)
  have r: "run hw a b pad pc (async_body idx) st = Some st3"
    using x1 s2(1) tail
    by (simp add: async_body_def Let_def run_append cur_def[symmetric] nxt_def[symmetric])
  have h3: "holds a b pad st3 nxt idx"
    unfolding st3_def cs_def by (rule staged_holds[OF ok ts bf(2)])
  have f3: "cp_open st3 = []" "cp_groups st3 = []" "g_C st3 = g_C st" "frag_C st3 = frag_C st2"
    by (simp_all add: st3_def foldl_complete_fields foldl_complete_frag_C f2)
  have "accumulated hw a b st2 (nat (idx - 1 + 1))"
    by (rule accumulated_step[OF acc]) (use i1 s2(3) in \<open>simp_all add: st1_def\<close>)
  then have a3: "accumulated hw a b st3 (nat idx)" by (simp add: accumulated_def f3(4))
  from r h3 f3 a3 show ?thesis unfolding nxt_def by simp
qed

lemma run_async_loop:
  assumes sch: "\<forall>pc. set (thread_order hw b pc) = set block_tids"
    and ok: "\<forall>k. 0 \<le> k \<and> k < K sdiv WMMA_SIZE_K \<longrightarrow> slice_ok a b k"
  shows "1 \<le> idx \<Longrightarrow> holds a b pad st ((idx - 1) AND 1) (idx - 1) \<Longrightarrow>
     cp_open st = [] \<Longrightarrow> cp_groups st = [] \<Longrightarrow> accumulated hw a b st (nat (idx - 1)) \<Longrightarrow>
     \<exists>st'. run hw a b pad pc (async_loop K idx) st = Some st' \<and>
       holds a b pad st' ((max idx (K sdiv WMMA_SIZE_K) - 1) AND 1) (max idx (K sdiv WMMA_SIZE_K) - 1) \<and>
       cp_open st' = [] \<and> cp_groups st' = [] \<and> g_C st' = g_C st \<and>
       accumulated hw a b st' (nat (max idx (K sdiv WMMA_SIZE_K) - 1))"
proof (induction "nat (K sdiv WMMA_SIZE_K - idx)" arbitrary: idx pc st)
  case 0
  then have "\<not> idx < K sdiv WMMA_SIZE_K" by simp
  then have "async_loop K idx = []" "max idx (K sdiv WMMA_SIZE_K) = idx"
    by (simp_all add: async_loop.simps[of K idx])
  with 0 show ?case by simp
next
  case (Suc n)
  then have lt: "idx < K sdiv WMMA_SIZE_K" by simp
  then have l: "async_loop K idx = async_body idx @ async_loop K (idx + 1)"
    by (simp add: async_loop.simps[of K idx])
  have oki: "slice_ok a b idx" using ok lt Suc.prems(1) by simp
  from run_async_body[OF sch Suc.prems(1) oki Suc.prems(2,3,4,5), where pc=pc]
  obtain st1 where s1: "run hw a b pad pc (async_body idx) st = Some st1"
    "holds a b pad st1 (idx AND 1) idx" "cp_open st1 = []"
    "cp_groups st1 = []" "g_C st1 = g_C st" "accumulated hw a b st1 (nat idx)"
    by blast
  have n: "n = nat (K sdiv WMMA_SIZE_K - (idx + 1))" using Suc.hyps(2) by simp
  have i1: "1 \<le> idx + 1" using Suc.prems(1) by simp
  have h1: "holds a b pad st1 ((idx + 1 - 1) AND 1) (idx + 1 - 1)" using s1(2) by simp
  have a1: "accumulated hw a b st1 (nat (idx + 1 - 1))" using s1(6) by simp
  from Suc.hyps(1)[OF n i1 h1 s1(3,4) a1, of "pc + length (async_body idx)"]
  obtain st' where s2: "run hw a b pad (pc + length (async_body idx)) (async_loop K (idx + 1)) st1 = Some st'"
    "holds a b pad st' ((max (idx + 1) (K sdiv WMMA_SIZE_K) - 1) AND 1) (max (idx + 1) (K sdiv WMMA_SIZE_K) - 1)"
    "cp_open st' = []" "cp_groups st' = []" "g_C st' = g_C st1"
    "accumulated hw a b st' (nat (max (idx + 1) (K sdiv WMMA_SIZE_K) - 1))"
    by blast
  have m: "max (idx + 1) (K sdiv WMMA_SIZE_K) = max idx (K sdiv WMMA_SIZE_K)" using lt by simp
  have "run hw a b pad pc (async_loop K idx) st = Some st'"
    unfolding l run_append using s1(1) s2(1) by simp
  with s2 s1(5) show ?case unfolding m by simp
qed

lemma run_async_fill:
  assumes sch: "\<forall>pc. set (thread_order hw b pc) = set block_tids"
    and ok: "slice_ok a b 0" and e: "cp_open st = []" "cp_groups st = []"
  shows "\<exists>st'. run hw a b pad pc async_fill st = Some st' \<and> holds a b pad st' 0 0 \<and>
     cp_open st' = [] \<and> cp_groups st' = [] \<and> g_C st' = g_C st \<and> frag_C st' = frag_C st"
proof -
  define cs where "cs = staged_copies a b pad 0 0 (thread_order hw b pc)"
  have ts: "set (thread_order hw b pc) = set block_tids" using sch by simp
  have x1: "exec hw a b pad (thread_order hw b pc) (Cp_async 0 0) st = Some (st\<lparr>cp_open := cs\<rparr>)"
    using exec_cp_async[OF ok ts, where hw=hw and pad=pad and buf=0 and st=st] e by (simp add: cs_def)
  define st3 where "st3 = foldl complete_cp (st\<lparr>cp_open := [], cp_groups := []\<rparr>) cs"
  have r: "run hw a b pad pc async_fill st = Some st3"
    using x1 by (simp add: async_fill_def st3_def e)
  have h3: "holds a b pad st3 0 0"
    unfolding st3_def cs_def by (rule staged_holds[OF ok ts]) simp
  have f3: "cp_open st3 = []" "cp_groups st3 = []" "g_C st3 = g_C st" "frag_C st3 = frag_C st"
    by (simp_all add: st3_def foldl_complete_fields foldl_complete_frag_C)
  from r h3 f3 show ?thesis by simp
qed

text \<open>The state in which each kernel reaches its stores.\<close>

lemma sync_before_stores:
  assumes sch: "\<forall>pc. set (thread_order hw b pc) = set block_tids" and su: "setup_ok b"
    and ok: "\<forall>k. 0 \<le> k \<and> k < K sdiv WMMA_SIZE_K \<longrightarrow> slice_ok a b k"
  shows "\<exists>st'. run hw a b pad 0 (Thread_setup # fill_ops @ sync_loop K 0) (init_state hw b c) = Some st' \<and>
     g_C st' = c \<and> accumulated hw a b st' (nat (K sdiv WMMA_SIZE_K))"
proof -
  from run_prologue[OF sch su, where a=a and pad=pad and pc=0 and st="init_state hw b c"]
  obtain st1 where s1: "run hw a b pad 0 (Thread_setup # fill_ops) (init_state hw b c) = Some st1"
    "same_mem (init_state hw b c) st1" "accumulated hw a b st1 0"
    by blast
  have f1: "cp_open st1 = []" "cp_groups st1 = []" "g_C st1 = c"
    using s1(2) by (simp_all add: same_mem_def init_state_def)
  from run_sync_loop[OF sch ok, where idx=0 and st=st1 and pad=pad and pc="length (Thread_setup # fill_ops)"]
    f1 s1(3)
  obtain st' where s2: "run hw a b pad (length (Thread_setup # fill_ops)) (sync_loop K 0) st1 = Some st'"
    "g_C st' = g_C st1" "accumulated hw a b st' (nat (max 0 (K sdiv WMMA_SIZE_K)))"
    by auto
  have "run hw a b pad 0 ((Thread_setup # fill_ops) @ sync_loop K 0) (init_state hw b c) = Some st'"
    unfolding run_append using s1(1) s2(1) by simp
  moreover have "nat (max 0 (K sdiv WMMA_SIZE_K)) = nat (K sdiv WMMA_SIZE_K)" by simp
  ultimately show ?thesis using s2(2,3) f1(3) by simp
qed

lemma async_before_stores:
  assumes sch: "\<forall>pc. set (thread_order hw b pc) = set block_tids" and su: "setup_ok b"
    and ok: "\<forall>k. 0 \<le> k \<and> k < K sdiv WMMA_SIZE_K \<longrightarrow> slice_ok a b k"
    and k1: "1 \<le> K sdiv WMMA_SIZE_K"
  shows "\<exists>st'. run hw a b pad 0
        (Thread_setup # fill_ops @ async_fill @ async_loop K 1 @ compute_ops (last_buf K)) (init_state hw b c) = Some st' \<and>
     g_C st' = c \<and> accumulated hw a b st' (nat (K sdiv WMMA_SIZE_K))"
proof -
  let ?nk = "K sdiv WMMA_SIZE_K"
  let ?p1 = "Thread_setup # fill_ops"
  from run_prologue[OF sch su, where a=a and pad=pad and pc=0 and st="init_state hw b c"]
  obtain st1 where s1: "run hw a b pad 0 ?p1 (init_state hw b c) = Some st1"
    "same_mem (init_state hw b c) st1" "accumulated hw a b st1 0"
    by blast
  have f1: "cp_open st1 = []" "cp_groups st1 = []" "g_C st1 = c"
    using s1(2) by (simp_all add: same_mem_def init_state_def)
  have ok0: "slice_ok a b 0" using ok k1 by simp
  from run_async_fill[OF sch ok0 f1(1,2), where pad=pad and pc="length ?p1"]
  obtain st2 where s2: "run hw a b pad (length ?p1) async_fill st1 = Some st2" "holds a b pad st2 0 0"
    "cp_open st2 = []" "cp_groups st2 = []" "g_C st2 = g_C st1" "frag_C st2 = frag_C st1"
    by blast
  have a2: "accumulated hw a b st2 (nat (1 - 1))" using s1(3) by (simp add: accumulated_def s2(6))
  have h2: "holds a b pad st2 ((1 - 1) AND 1) (1 - 1)" using s2(2) by simp
  from run_async_loop[OF sch ok _ h2 s2(3,4) a2, where pc="length ?p1 + length async_fill"]
  obtain st3 where s3: "run hw a b pad (length ?p1 + length async_fill) (async_loop K 1) st2 = Some st3"
    "holds a b pad st3 ((max 1 ?nk - 1) AND 1) (max 1 ?nk - 1)"
    "cp_open st3 = []" "cp_groups st3 = []" "g_C st3 = g_C st2"
    "accumulated hw a b st3 (nat (max 1 ?nk - 1))"
    by auto
  have m: "max 1 ?nk = ?nk" using k1 by simp
  have h3: "holds a b pad st3 (last_buf K) (?nk - 1)" using s3(2) unfolding m last_buf_def .
  have q3: "quiet pad st3 (last_buf K)" by (rule quiet_empty[OF s3(3,4)])
  from compute_phase[OF sch q3 h3, where pc="length ?p1 + length async_fill + length (async_loop K 1)"]
  obtain st4 where s4: "run hw a b pad (length ?p1 + length async_fill + length (async_loop K 1))
        (compute_ops (last_buf K)) st3 = Some st4" "same_mem st3 st4"
    "\<forall>w i j. 0 \<le> w \<and> w < 8 \<and> i < 2 \<and> j < 4 \<longrightarrow>
        frag_C st4 (w, i, j) =
          mma_sync hw (ref_frag_A a b (?nk - 1) w i) (ref_frag_B a b (?nk - 1) w j) (frag_C st3 (w, i, j))"
    by blast
  have "accumulated hw a b st4 (nat (?nk - 1 + 1))"
    by (rule accumulated_step[OF s3(6)[unfolded m] _ s4(3)]) (use k1 in simp)
  then have a4: "accumulated hw a b st4 (nat ?nk)" by simp
  have g4: "g_C st4 = c" using s4(2) s3(5) s2(5) f1(3) by (simp add: same_mem_def)
  have "run hw a b pad 0 (?p1 @ async_fill @ async_loop K 1 @ compute_ops (last_buf K)) (init_state hw b c) = Some st4"
    unfolding run_append using s1(1) s2(1) s3(1) s4(1) by (simp add: ac_simps)
  with a4 g4 show ?thesis by simp
qed

end
